theory Spec2Isabelle
  imports Complex_Main "HOL-Library.Word" "HOL-Library.Sublist"
begin

unbundle bit_operations_syntax

section \<open>JavaScript values used by the fingerprint code\<close>

text \<open>
  The program is TypeScript. A \<open>Buffer\<close> is an array of unsigned bytes, modelled as a list
  of 8-bit words. A JavaScript number that holds an integer is modelled as \<open>int\<close>; the
  bitwise operators first convert their operands to 32 bits (\<open>ToInt32\<close>, \<open>ToUint32\<close>),
  which is written out below. Reading a buffer outside its range gives \<open>undefined\<close>,
  modelled as \<open>None\<close>: a bitwise operator turns it into 0, and a comparison with it is
  false. A string is a list of characters (its UTF-8 bytes).
\<close>

type_synonym byte = "8 word"
type_synonym buffer = "byte list"

datatype error =
    HashLengthMismatch nat nat
  | BufferLengthMismatch nat nat
  | ExternalError

definition ToInt32 :: "int \<Rightarrow> int" where
  "ToInt32 x = signed_take_bit 31 x"

definition ToUint32 :: "int \<Rightarrow> int" where
  "ToUint32 x = take_bit 32 x"

definition js_xor :: "int \<Rightarrow> int \<Rightarrow> int" where
  "js_xor a b = ToInt32 a XOR ToInt32 b"

definition js_or :: "int \<Rightarrow> int \<Rightarrow> int" where
  "js_or a b = ToInt32 a OR ToInt32 b"

definition js_and :: "int \<Rightarrow> int \<Rightarrow> int" where
  "js_and a b = ToInt32 a AND ToInt32 b"

definition js_shl :: "int \<Rightarrow> nat \<Rightarrow> int" where
  "js_shl a k = ToInt32 (push_bit (k mod 32) (ToInt32 a))"

definition js_shr :: "int \<Rightarrow> nat \<Rightarrow> int" where
  "js_shr a k = drop_bit (k mod 32) (ToInt32 a)"

definition js_ushr :: "int \<Rightarrow> nat \<Rightarrow> int" where
  "js_ushr a k = drop_bit (k mod 32) (ToUint32 a)"

definition Math_imul :: "int \<Rightarrow> int \<Rightarrow> int" where
  "Math_imul a b = ToInt32 (ToInt32 a * ToInt32 b)"

definition byteAt :: "buffer \<Rightarrow> nat \<Rightarrow> int option" where
  "byteAt buf i = (if i < length buf then Some (uint (buf ! i)) else None)"

definition num0 :: "int option \<Rightarrow> int" where
  "num0 v = (case v of None \<Rightarrow> 0 | Some n \<Rightarrow> n)"

definition js_lt :: "int option \<Rightarrow> int option \<Rightarrow> bool" where
  "js_lt a b = (case a of None \<Rightarrow> False
                | Some x \<Rightarrow> (case b of None \<Rightarrow> False | Some y \<Rightarrow> x < y))"

definition store :: "buffer \<Rightarrow> nat \<Rightarrow> int \<Rightarrow> buffer" where
  "store buf i v = (if i < length buf then buf[i := word_of_int v] else buf)"

definition HASH_BYTES :: nat where
  "HASH_BYTES = 128"

definition DEFAULT_SIZE :: nat where
  "DEFAULT_SIZE = 32"

section \<open>Hamming distance\<close>

text \<open>
  \<open>xorWord\<close> is the 32-bit word that the loop body of \<open>hammingDistance\<close> assembles from
  four byte pairs, \<open>popcount32\<close> the bit trick that follows it.
\<close>

definition xorWord :: "buffer \<Rightarrow> nat \<Rightarrow> buffer \<Rightarrow> nat \<Rightarrow> int" where
  "xorWord h1 i h2 j =
     js_ushr
       (js_or
          (js_or
             (js_or (js_xor (num0 (byteAt h1 i)) (num0 (byteAt h2 j)))
                    (js_shl (js_xor (num0 (byteAt h1 (i + 1))) (num0 (byteAt h2 (j + 1)))) 8))
             (js_shl (js_xor (num0 (byteAt h1 (i + 2))) (num0 (byteAt h2 (j + 2)))) 16))
          (js_shl (js_xor (num0 (byteAt h1 (i + 3))) (num0 (byteAt h2 (j + 3)))) 24))
       0"

definition popcount32 :: "int \<Rightarrow> int" where
  "popcount32 x =
     (let x1 = x - js_and (js_ushr x 1) 0x55555555;
          x2 = js_and x1 0x33333333 + js_and (js_ushr x1 2) 0x33333333;
          x3 = js_and (x2 + js_ushr x2 4) 0x0f0f0f0f
      in js_ushr (Math_imul x3 0x01010101) 24)"

function hammingLoop :: "buffer \<Rightarrow> buffer \<Rightarrow> nat \<Rightarrow> int \<Rightarrow> int" where
  "hammingLoop h1 h2 i distance =
     (if i < length h1
      then hammingLoop h1 h2 (i + 4) (distance + popcount32 (xorWord h1 i h2 i))
      else distance)"
  by pat_completeness auto
termination
  by (relation "measure (\<lambda>(h1, h2, i, distance). length h1 - i)") auto

declare hammingLoop.simps [simp del]

definition hammingDistance :: "buffer \<Rightarrow> buffer \<Rightarrow> error + int" where
  "hammingDistance h1 h2 =
     (if length h1 \<noteq> length h2 then Inl (HashLengthMismatch (length h1) (length h2))
      else Inr (hammingLoop h1 h2 0 0))"

text \<open>
  \<open>hashSimilarity\<close> divides by the number of bits. For two empty buffers JavaScript
  computes \<open>0 / 0\<close>, which is NaN; the result type keeps that case apart.
\<close>

datatype number = Num rat | NaN

definition hashSimilarity :: "buffer \<Rightarrow> buffer \<Rightarrow> error + number" where
  "hashSimilarity h1 h2 =
     (case hammingDistance h1 h2 of
        Inl e \<Rightarrow> Inl e
      | Inr distance \<Rightarrow>
          (let totalBits = length h1 * 8
           in if totalBits = 0 then Inr NaN
              else Inr (Num (1 - of_int distance / of_nat totalBits))))"

function atOffsetLoop :: "buffer \<Rightarrow> buffer \<Rightarrow> nat \<Rightarrow> nat \<Rightarrow> int \<Rightarrow> int" where
  "atOffsetLoop h1 indexHashes offset i distance =
     (if i < HASH_BYTES
      then atOffsetLoop h1 indexHashes offset (i + 4)
             (distance + popcount32 (xorWord h1 i indexHashes (offset + i)))
      else distance)"
  by pat_completeness auto
termination
  by (relation "measure (\<lambda>(h1, indexHashes, offset, i, distance). HASH_BYTES - i)") auto

declare atOffsetLoop.simps [simp del]

definition hammingDistanceAtOffset :: "buffer \<Rightarrow> buffer \<Rightarrow> nat \<Rightarrow> int" where
  "hammingDistanceAtOffset h1 indexHashes offset = atOffsetLoop h1 indexHashes offset 0 0"
section \<open>Counting bits\<close>

text \<open>
  The reference the distance is compared with: the number of bit positions \<open>(i, j)\<close>,
  byte \<open>i\<close> and bit \<open>j\<close> of that byte, at which the two buffers differ, counted one
  position at a time.
\<close>

definition differingBits :: "buffer \<Rightarrow> buffer \<Rightarrow> nat" where
  "differingBits h1 h2 =
     length (filter (\<lambda>(i, j). bit (h1 ! i) j \<noteq> bit (h2 ! i) j)
               (List.product [0..<length h1] [0..<8]))"

text \<open>
  Auxiliary notions for the proof that \<open>popcount32\<close> counts bits: \<open>cnt k x\<close> is the number
  of set bits among the lowest \<open>k\<close> bits of \<open>x\<close>, \<open>val16\<close> reads a list of hexadecimal
  digits (lowest first), \<open>popcount_nat\<close> is the arithmetic of \<open>popcount32\<close> on natural
  numbers, and \<open>nib1\<close>, \<open>nib2\<close> are what its first two steps do to one hexadecimal digit.
\<close>

definition cnt :: "nat \<Rightarrow> nat \<Rightarrow> nat" where
  "cnt k x = length (filter (bit x) [0..<k])"

fun val16 :: "nat list \<Rightarrow> nat" where
  "val16 [] = 0"
| "val16 (n # ns) = n + 16 * val16 ns"

definition popcount_nat :: "nat \<Rightarrow> nat" where
  "popcount_nat x =
     (let x1 = x - ((x div 2) AND 0x55555555);
          x2 = (x1 AND 0x33333333) + ((x1 div 4) AND 0x33333333);
          x3 = (x2 + x2 div 16) AND 0x0f0f0f0f
      in ((x3 * 0x01010101) mod 2 ^ 32) div 2 ^ 24)"

definition nib1 :: "nat \<Rightarrow> nat" where
  "nib1 n = n - ((n div 2) AND 5)"

definition nib2 :: "nat \<Rightarrow> nat" where
  "nib2 n = (nib1 n AND 3) + ((nib1 n div 4) AND 3)"

text \<open>
  \<open>xorByte\<close> is the exclusive or of one byte pair as the loop body forms it (a byte outside
  its buffer counts as 0), \<open>byteDiff\<close> the number of bit positions at which two bytes differ.
\<close>

definition xorByte :: "buffer \<Rightarrow> nat \<Rightarrow> buffer \<Rightarrow> nat \<Rightarrow> nat" where
  "xorByte h1 i h2 j = nat (js_xor (num0 (byteAt h1 i)) (num0 (byteAt h2 j)))"

definition byteDiff :: "byte \<Rightarrow> byte \<Rightarrow> nat" where
  "byteDiff a b = length (filter (\<lambda>j. bit a j \<noteq> bit b j) [0..<8])"

section \<open>Difference hash\<close>

text \<open>
  \<open>computeHashFromPixels\<close> runs two nested counting loops over mutable locals: the output
  buffer, the index of the next output byte, the byte being assembled and the number of bits
  already in it. The locals form the loop state, and \<open>compareStep\<close> is one run of the inner
  loop body. The output buffer always has \<open>HASH_BYTES\<close> bytes; a write past its end is
  ignored, as it is for a JavaScript \<open>Buffer\<close>.
\<close>

record hash_state =
  hash :: buffer
  byteIndex :: nat
  byte :: int
  bitInByte :: nat

definition initialState :: hash_state where
  "initialState = \<lparr>hash = replicate HASH_BYTES 0, byteIndex = 0, byte = 0, bitInByte = 0\<rparr>"

definition compareStep :: "buffer \<Rightarrow> nat \<Rightarrow> nat \<Rightarrow> hash_state \<Rightarrow> hash_state" where
  "compareStep data rowOffset x st =
     (let byte1 = (if js_lt (byteAt data (rowOffset + x)) (byteAt data (rowOffset + x + 1))
                   then js_or (byte st) (js_shr 128 (bitInByte st))
                   else byte st);
          bit1 = bitInByte st + 1
      in if bit1 = 8
         then \<lparr>hash = store (hash st) (byteIndex st) byte1,
               byteIndex = byteIndex st + 1, byte = 0, bitInByte = 0\<rparr>
         else st\<lparr>byte := byte1, bitInByte := bit1\<rparr>)"

definition computeHashFromPixels :: "buffer \<Rightarrow> nat \<Rightarrow> nat \<Rightarrow> buffer" where
  "computeHashFromPixels data sz rowWidth =
     hash (fold (\<lambda>y. fold (compareStep data (y * rowWidth)) [0..<sz]) [0..<sz] initialState)"

text \<open>
  Rasterisation is done by the external library \<open>sharp\<close>. It is a parameter of the model: a
  function from the fit mode, the image source, the width and the height to a grayscale
  pixel buffer, or to an error when the library rejects the image.
\<close>

datatype fit = Contain | Fill

type_synonym rasterizer = "fit \<Rightarrow> string \<Rightarrow> nat \<Rightarrow> nat \<Rightarrow> error + buffer"

definition computeDHash :: "rasterizer \<Rightarrow> string \<Rightarrow> nat \<Rightarrow> error + buffer" where
  "computeDHash sharp source sz =
     (case sharp Contain source (sz + 1) sz of
        Inl e \<Rightarrow> Inl e
      | Inr data \<Rightarrow> Inr (computeHashFromPixels data sz (sz + 1)))"

text \<open>
  For the proofs: \<open>pushBit\<close> is the loop body once the comparison is made, and \<open>darker\<close> is
  the comparison of the pixel at an index with its right neighbour.
\<close>

definition pushBit :: "bool \<Rightarrow> hash_state \<Rightarrow> hash_state" where
  "pushBit b st =
     (let byte1 = (if b then js_or (byte st) (js_shr 128 (bitInByte st)) else byte st);
          bit1 = bitInByte st + 1
      in if bit1 = 8
         then \<lparr>hash = store (hash st) (byteIndex st) byte1,
               byteIndex = byteIndex st + 1, byte = 0, bitInByte = 0\<rparr>
         else st\<lparr>byte := byte1, bitInByte := bit1\<rparr>)"

definition darker :: "buffer \<Rightarrow> nat \<Rightarrow> bool" where
  "darker data i = js_lt (byteAt data i) (byteAt data (i + 1))"

text \<open>
  The loop invariant: after the comparisons \<open>bs\<close> have been consumed, \<open>length bs div 8\<close>
  bytes have been flushed (those that fit the buffer hold their eight comparisons, first
  comparison in the top bit), the byte being assembled holds the remaining comparisons, and
  the bytes not yet written are 0.
\<close>

definition packInv :: "bool list \<Rightarrow> hash_state \<Rightarrow> bool" where
  "packInv bs st \<longleftrightarrow>
     length (hash st) = HASH_BYTES
   \<and> byteIndex st = length bs div 8
   \<and> bitInByte st = length bs mod 8
   \<and> 0 \<le> byte st \<and> byte st < 256
   \<and> (\<forall>m. bit (byte st) m \<longleftrightarrow>
          m < 8 \<and> 7 - m < length bs mod 8 \<and> bs ! (8 * (length bs div 8) + (7 - m)))
   \<and> (\<forall>i m. i < HASH_BYTES \<and> i < length bs div 8 \<and> m < 8 \<longrightarrow>
          (bit (hash st ! i) m \<longleftrightarrow> bs ! (8 * i + (7 - m))))
   \<and> (\<forall>i. i < HASH_BYTES \<and> length bs div 8 \<le> i \<longrightarrow> hash st ! i = 0)"

text \<open>
  The comparisons in the order in which the two loops make them: row \<open>y\<close> outer, column
  \<open>x\<close> inner.
\<close>

definition comparisons :: "buffer \<Rightarrow> nat \<Rightarrow> nat \<Rightarrow> bool list" where
  "comparisons data sz rowWidth =
     map (\<lambda>(y, x). darker data (y * rowWidth + x)) (List.product [0..<sz] [0..<sz])"

section \<open>Inputs and outputs of the index builder\<close>

text \<open>
  \<open>IconInput\<close> is one icon handed to \<open>buildIndex\<close>, \<open>BuiltIndex\<close> its result: the names
  joined into one text and the fingerprints concatenated into one buffer.
\<close>

record IconInput =
  name :: string
  svg :: string

record BuiltIndex =
  names :: string
  hashes :: buffer

section \<open>The index and its loader\<close>

text \<open>
  Strings are lists of characters. \<open>split_on\<close> is \<open>String.prototype.split\<close> with a
  separator of one character: it never returns the empty list, and the empty string splits
  into one empty piece. \<open>join_with\<close> is \<open>Array.prototype.join\<close>. \<open>toString_utf8\<close> and
  \<open>fromString_utf8\<close> turn a buffer into the string of its bytes and back.
\<close>

fun split_on :: "char \<Rightarrow> string \<Rightarrow> string list" where
  "split_on sep [] = [[]]"
| "split_on sep (c # cs) =
     (if c = sep then [] # split_on sep cs
      else (case split_on sep cs of
              [] \<Rightarrow> [[c]]
            | w # ws \<Rightarrow> (c # w) # ws))"

fun join_with :: "char \<Rightarrow> string list \<Rightarrow> string" where
  "join_with sep [] = []"
| "join_with sep [x] = x"
| "join_with sep (x # y # ys) = x @ sep # join_with sep (y # ys)"

definition newline :: char where
  "newline = CHR 0x0A"

definition colon :: char where
  "colon = CHR '':''"

definition toString_utf8 :: "buffer \<Rightarrow> string" where
  "toString_utf8 buf = map (\<lambda>b. char_of (unat b)) buf"

definition fromString_utf8 :: "string \<Rightarrow> buffer" where
  "fromString_utf8 s = map (\<lambda>c. of_nat (of_char c)) s"

record IconIndex =
  names :: "string list"
  hashes :: buffer

text \<open>
  Decompression is done by zlib's \<open>gunzipSync\<close>, a parameter of the model: it returns the
  decompressed payload or fails. After it, \<open>loadIndex\<close> splits the names payload into lines,
  drops the empty ones (\<open>filter(Boolean)\<close>) and returns the two parts as they are.
\<close>

type_synonym gunzip = "buffer \<Rightarrow> error + buffer"

definition loadIndex :: "gunzip \<Rightarrow> buffer \<Rightarrow> buffer \<Rightarrow> error + IconIndex" where
  "loadIndex gunzipSync namesGz hashesGz =
     (case gunzipSync namesGz of
        Inl e \<Rightarrow> Inl e
      | Inr namesBytes \<Rightarrow>
          (let namesStr = toString_utf8 namesBytes;
               nms = filter (\<lambda>s. s \<noteq> []) (split_on newline namesStr)
           in case gunzipSync hashesGz of
                Inl e \<Rightarrow> Inl e
              | Inr hs \<Rightarrow> Inr \<lparr>names = nms, hashes = hs\<rparr>))"

section \<open>The matcher\<close>

record IconMatch =
  name :: string
  similarity :: rat

record MatchOptions =
  size' :: "nat option"
  limit :: "int option"
  threshold :: "rat option"
  prefixes :: "string list option"
  prefer' :: "string list option"

text \<open>
  \<open>prefixOf\<close> is \<open>name.split(':')[0]\<close>. \<open>optionSet\<close> is the expression
  \<open>xs?.length ? new Set(xs) : null\<close>: an absent or empty list gives no set.
\<close>

definition prefixOf :: "string \<Rightarrow> string" where
  "prefixOf nm = (case split_on colon nm of [] \<Rightarrow> [] | p # ps \<Rightarrow> p)"

definition optionSet :: "string list option \<Rightarrow> string set option" where
  "optionSet xs = (case xs of None \<Rightarrow> None | Some l \<Rightarrow> if l = [] then None else Some (set l))"

text \<open>
  One run of the body of the scan loop, for record \<open>i\<close>, with the matches found so far.
  The similarity \<open>1 - dist / 1024\<close> is a multiple of \<open>1 / 1024\<close> between 0 and 1, which a
  double holds exactly; the model computes it in the rational numbers.
\<close>

definition scanStep ::
  "buffer \<Rightarrow> IconIndex \<Rightarrow> string set option \<Rightarrow> int \<Rightarrow> rat \<Rightarrow> nat \<Rightarrow> IconMatch list \<Rightarrow> IconMatch list"
where
  "scanStep inputHash index prefixSet thresholdDist thr i matches =
     (let nm = IconIndex.names index ! i
      in if (case prefixSet of
               None \<Rightarrow> False
             | Some ps \<Rightarrow> prefixOf nm = [] \<or> prefixOf nm \<notin> ps)
         then matches
         else
           (let dist = hammingDistanceAtOffset inputHash (IconIndex.hashes index) (i * HASH_BYTES)
            in if dist > thresholdDist then matches
               else
                 (let sim = 1 - of_int dist / of_nat (HASH_BYTES * 8)
                  in if sim \<ge> thr then matches @ [\<lparr>name = nm, similarity = sim\<rparr>]
                     else matches)))"

definition scanMatches ::
  "buffer \<Rightarrow> IconIndex \<Rightarrow> string set option \<Rightarrow> int \<Rightarrow> rat \<Rightarrow> IconMatch list"
where
  "scanMatches inputHash index prefixSet thresholdDist thr =
     fold (scanStep inputHash index prefixSet thresholdDist thr)
       [0..<length (IconIndex.names index)] []"

text \<open>The comparison function handed to \<open>sort\<close>.\<close>

definition compareMatches :: "string set option \<Rightarrow> IconMatch \<Rightarrow> IconMatch \<Rightarrow> rat" where
  "compareMatches preferSet a b =
     (let simDiff = similarity b - similarity a
      in if \<bar>simDiff\<bar> > 1 / 1000 then simDiff
         else (case preferSet of
                 None \<Rightarrow> 0
               | Some ps \<Rightarrow>
                   (let aPreferred = prefixOf (name a) \<in> ps;
                        bPreferred = prefixOf (name b) \<in> ps
                    in if aPreferred \<and> \<not> bPreferred then -1
                       else if bPreferred \<and> \<not> aPreferred then 1
                       else 0)))"

text \<open>
  \<open>Array.prototype.sort\<close> belongs to the language, not to the program. ECMAScript requires
  it to be stable and to order the array when the comparison function is consistent; for
  other comparison functions the order is left to the implementation. The model is an
  insertion sort that keeps elements that compare equal in their order.
\<close>

fun insertBy :: "('a \<Rightarrow> 'a \<Rightarrow> rat) \<Rightarrow> 'a \<Rightarrow> 'a list \<Rightarrow> 'a list" where
  "insertBy cmp x [] = [x]"
| "insertBy cmp x (y # ys) = (if cmp x y \<le> 0 then x # y # ys else y # insertBy cmp x ys)"

definition sortBy :: "('a \<Rightarrow> 'a \<Rightarrow> rat) \<Rightarrow> 'a list \<Rightarrow> 'a list" where
  "sortBy cmp xs = foldr (insertBy cmp) xs []"

text \<open>
  \<open>slice0 xs end\<close> is \<open>xs.slice(0, end)\<close> for an integral \<open>end\<close>: a negative \<open>end\<close> counts
  from the end of the array.
\<close>

definition slice0 :: "'a list \<Rightarrow> int \<Rightarrow> 'a list" where
  "slice0 xs e = (if e < 0 then take (nat (int (length xs) + e)) xs else take (nat e) xs)"

definition sizeOf :: "MatchOptions \<Rightarrow> nat" where
  "sizeOf options = (case size' options of None \<Rightarrow> DEFAULT_SIZE | Some s \<Rightarrow> s)"

definition limitOf :: "MatchOptions \<Rightarrow> int" where
  "limitOf options = (case limit options of None \<Rightarrow> 10 | Some l \<Rightarrow> l)"

definition thresholdOf :: "MatchOptions \<Rightarrow> rat" where
  "thresholdOf options = (case threshold options of None \<Rightarrow> 8 / 10 | Some t \<Rightarrow> t)"

definition thresholdDistOf :: "MatchOptions \<Rightarrow> int" where
  "thresholdDistOf options = \<lfloor>(1 - thresholdOf options) * of_nat HASH_BYTES * 8\<rfloor>"

text \<open>
  \<open>candidates\<close> is the array \<open>matches\<close> when the scan loop ends, \<open>rankMatches\<close> the rest of
  \<open>findMatches\<close> once the query hash is computed, and \<open>findMatches\<close> the whole function. The
  threshold is a finite double, modelled by the rational number it denotes.
\<close>

definition candidates :: "buffer \<Rightarrow> IconIndex \<Rightarrow> MatchOptions \<Rightarrow> IconMatch list" where
  "candidates inputHash index options =
     scanMatches inputHash index (optionSet (prefixes options)) (thresholdDistOf options)
       (thresholdOf options)"

definition rankMatches :: "buffer \<Rightarrow> IconIndex \<Rightarrow> MatchOptions \<Rightarrow> IconMatch list" where
  "rankMatches inputHash index options =
     slice0 (sortBy (compareMatches (optionSet (prefer' options)))
               (candidates inputHash index options))
       (limitOf options)"

definition findMatches ::
  "rasterizer \<Rightarrow> string \<Rightarrow> IconIndex \<Rightarrow> MatchOptions \<Rightarrow> error + IconMatch list"
where
  "findMatches sharp source index options =
     (case computeDHash sharp source (sizeOf options) of
        Inl e \<Rightarrow> Inl e
      | Inr inputHash \<Rightarrow> Inr (rankMatches inputHash index options))"

text \<open>
  The notions the ordering claims use: two matches are \<open>tied\<close> when their similarities differ
  by less than 0.001, a match is \<open>preferred\<close> when the prefix of its name is in the set made
  from \<open>options.prefer\<close>, and \<open>sameRank\<close> holds for two tied matches that are equally
  preferred.
\<close>

definition tied :: "IconMatch \<Rightarrow> IconMatch \<Rightarrow> bool" where
  "tied a b \<longleftrightarrow> \<bar>similarity a - similarity b\<bar> < 1 / 1000"

definition preferred :: "string set option \<Rightarrow> IconMatch \<Rightarrow> bool" where
  "preferred preferSet m = (case preferSet of None \<Rightarrow> False | Some ps \<Rightarrow> prefixOf (name m) \<in> ps)"

definition sameRank :: "string set option \<Rightarrow> IconMatch \<Rightarrow> IconMatch \<Rightarrow> bool" where
  "sameRank preferSet a b \<longleftrightarrow> tied a b \<and> preferred preferSet a = preferred preferSet b"

text \<open>A similarity that the scan computes is \<open>1 - d / 1024\<close> for an integer \<open>d\<close>.\<close>

definition onGrid :: "IconMatch \<Rightarrow> bool" where
  "onGrid m \<longleftrightarrow> (\<exists>d :: int. similarity m = 1 - of_int d / 1024)"

text \<open>
  A comparison function is consistent on a set when \<open>cmp a b \<le> 0\<close> is a total and
  transitive relation there.
\<close>

definition totalOn :: "('a \<Rightarrow> 'a \<Rightarrow> rat) \<Rightarrow> 'a set \<Rightarrow> bool" where
  "totalOn cmp S \<longleftrightarrow> (\<forall>a\<in>S. \<forall>b\<in>S. cmp a b \<le> 0 \<or> cmp b a \<le> 0)"

definition transOn :: "('a \<Rightarrow> 'a \<Rightarrow> rat) \<Rightarrow> 'a set \<Rightarrow> bool" where
  "transOn cmp S \<longleftrightarrow> (\<forall>a\<in>S. \<forall>b\<in>S. \<forall>c\<in>S. cmp a b \<le> 0 \<longrightarrow> cmp b c \<le> 0 \<longrightarrow> cmp a c \<le> 0)"

text \<open>
  Ties are transitive on a list of matches when no match is tied with two matches that are
  not tied with each other.
\<close>

definition tiesTransitive :: "IconMatch list \<Rightarrow> bool" where
  "tiesTransitive ms \<longleftrightarrow>
     (\<forall>a\<in>set ms. \<forall>b\<in>set ms. \<forall>c\<in>set ms. tied a b \<and> tied b c \<longrightarrow> tied a c)"

section \<open>The index builder\<close>

definition SPRITE_COLS :: nat where
  "SPRITE_COLS = 50"

definition batchSize :: nat where
  "batchSize = SPRITE_COLS * 20"

text \<open>
  \<open>extractHash\<close> is the body of the loop of \<open>extractHashesFromSprite\<close> for icon \<open>i\<close>: the
  same comparison loop as in \<open>computeHashFromPixels\<close>, on the cell of the icon in the
  rendered sprite sheet.
\<close>

definition extractHash :: "buffer \<Rightarrow> nat \<Rightarrow> nat \<Rightarrow> nat \<Rightarrow> nat \<Rightarrow> nat \<Rightarrow> buffer" where
  "extractHash data spriteWidth cols iconWidth iconHeight i =
     (let startX = (i mod cols) * iconWidth;
          startY = (i div cols) * iconHeight
      in hash (fold (\<lambda>y. fold (compareStep data ((startY + y) * spriteWidth + startX))
                              [0..<iconHeight])
                 [0..<iconHeight] initialState))"

definition extractHashesFromSprite ::
  "buffer \<Rightarrow> nat \<Rightarrow> nat \<Rightarrow> nat \<Rightarrow> nat \<Rightarrow> nat \<Rightarrow> buffer list"
where
  "extractHashesFromSprite data spriteWidth count cols iconWidth iconHeight =
     map (extractHash data spriteWidth cols iconWidth iconHeight) [0..<count]"

text \<open>
  The state of the loop of \<open>buildIndex\<close>: the arrays \<open>names\<close> and \<open>hashBuffers\<close>, and the
  calls made to the progress callback so far, each with its two arguments.
\<close>

record build_state =
  namesAcc :: "string list"
  hashBuffers :: "buffer list"
  progress :: "(nat \<times> nat) list"

definition initialBuild :: build_state where
  "initialBuild = \<lparr>namesAcc = [], hashBuffers = [], progress = []\<rparr>"

definition pushIcon :: "string \<Rightarrow> buffer \<Rightarrow> build_state \<Rightarrow> build_state" where
  "pushIcon nm h st = st\<lparr>namesAcc := namesAcc st @ [nm], hashBuffers := hashBuffers st @ [h]\<rparr>"

text \<open>
  The \<open>catch\<close> branch: each icon of the batch is hashed on its own, and an icon whose
  hashing fails is skipped.
\<close>

definition fallbackBatch :: "rasterizer \<Rightarrow> nat \<Rightarrow> IconInput list \<Rightarrow> build_state \<Rightarrow> build_state" where
  "fallbackBatch sharp sz batch st =
     fold (\<lambda>icon st'. case computeDHash sharp (IconInput.svg icon) sz of
                         Inl e \<Rightarrow> st'
                       | Inr h \<Rightarrow> pushIcon (IconInput.name icon) h st')
       batch st"

text \<open>
  The \<open>try\<close> block. \<open>createSpriteSheet\<close> builds the text of the sprite sheet from the icons;
  it is a parameter of the model, since only the rasteriser reads its result. Rendering the
  sheet is the one step of the block that can fail, and it comes before the first
  \<open>push\<close>.
\<close>

type_synonym spriteSheet = "IconInput list \<Rightarrow> nat \<Rightarrow> nat \<Rightarrow> string"

definition processBatch ::
  "spriteSheet \<Rightarrow> rasterizer \<Rightarrow> nat \<Rightarrow> IconInput list \<Rightarrow> build_state \<Rightarrow> build_state"
where
  "processBatch createSpriteSheet sharp sz batch st =
     (let iconWidth = sz + 1;
          iconHeight = sz;
          sprite = createSpriteSheet batch SPRITE_COLS iconWidth;
          spriteWidth = SPRITE_COLS * iconWidth;
          rows = (length batch + SPRITE_COLS - 1) div SPRITE_COLS;
          spriteHeight = rows * iconHeight
      in case sharp Fill sprite spriteWidth spriteHeight of
           Inr data \<Rightarrow>
             (let batchHashes = extractHashesFromSprite data spriteWidth (length batch)
                                  SPRITE_COLS iconWidth iconHeight
              in fold (\<lambda>j. pushIcon (IconInput.name (batch ! j)) (batchHashes ! j))
                   [0..<length batch] st)
         | Inl e \<Rightarrow> fallbackBatch sharp sz batch st)"

function buildLoop ::
  "spriteSheet \<Rightarrow> rasterizer \<Rightarrow> nat \<Rightarrow> IconInput list \<Rightarrow> nat \<Rightarrow> build_state \<Rightarrow> build_state"
where
  "buildLoop createSpriteSheet sharp sz icons i st =
     (if i < length icons
      then
        (let batch = take batchSize (drop i icons);
             st1 = processBatch createSpriteSheet sharp sz batch st;
             st2 = st1\<lparr>progress := progress st1
                                     @ [(min (i + batchSize) (length icons), length icons)]\<rparr>
         in buildLoop createSpriteSheet sharp sz icons (i + batchSize) st2)
      else st)"
  by pat_completeness auto
termination
  by (relation "measure (\<lambda>(createSpriteSheet, sharp, sz, icons, i, st). length icons - i)")
     (auto simp add: batchSize_def SPRITE_COLS_def)

declare buildLoop.simps [simp del]

definition buildState :: "spriteSheet \<Rightarrow> rasterizer \<Rightarrow> IconInput list \<Rightarrow> nat \<Rightarrow> build_state" where
  "buildState createSpriteSheet sharp icons sz =
     buildLoop createSpriteSheet sharp sz icons 0 initialBuild"

definition buildIndex :: "spriteSheet \<Rightarrow> rasterizer \<Rightarrow> IconInput list \<Rightarrow> nat \<Rightarrow> BuiltIndex" where
  "buildIndex createSpriteSheet sharp icons sz =
     (let st = buildState createSpriteSheet sharp icons sz
      in \<lparr>BuiltIndex.names = join_with newline (namesAcc st),
          BuiltIndex.hashes = concat (hashBuffers st)\<rparr>)"

text \<open>The number of names that the loader finds in a names text.\<close>

definition namesIn :: "string \<Rightarrow> nat" where
  "namesIn txt = length (filter (\<lambda>s. s \<noteq> []) (split_on newline txt))"

text \<open>The loop invariant: as many names as fingerprints, and every fingerprint has 128 bytes.\<close>

definition paired :: "build_state \<Rightarrow> bool" where
  "paired st \<longleftrightarrow>
     length (namesAcc st) = length (hashBuffers st)
   \<and> (\<forall>h\<in>set (hashBuffers st). length h = HASH_BYTES)"

section \<open>Example inputs\<close>

text \<open>
  Inputs for the concrete instances below: a rasteriser that returns an image of one colour
  (its difference hash is 128 zero bytes), options that set at most the limit and the
  preferred sets, and two
  indexes of three records. The records of \<open>chainIndex\<close> differ from the zero hash in 2, 1
  and 0 bits, those of \<open>tieIndex\<close> in 0, 5 and 0 bits, and those of \<open>farIndex\<close> in all
  1024 bits.
\<close>

definition flatRaster :: rasterizer where
  "flatRaster f s w h = Inr (replicate (w * h) 0)"

definition optionsWith :: "int option \<Rightarrow> string list option \<Rightarrow> MatchOptions" where
  "optionsWith l p = \<lparr>size' = None, limit = l, threshold = None, prefixes = None, prefer' = p\<rparr>"

definition chainIndex :: IconIndex where
  "chainIndex = \<lparr>names = [''x:c'', ''x:b'', ''x:a''],
                 hashes = (3 # replicate 127 0) @ (1 # replicate 127 0) @ replicate 128 0\<rparr>"

definition tieIndex :: IconIndex where
  "tieIndex = \<lparr>names = [''x:a'', ''x:far'', ''y:b''],
               hashes = replicate 128 0 @ (31 # replicate 127 0) @ replicate 128 0\<rparr>"

definition farIndex :: IconIndex where
  "farIndex = \<lparr>names = [''x:p'', ''x:q'', ''x:r''],
               hashes = replicate 128 255 @ replicate 128 255 @ replicate 128 255\<rparr>"

text \<open>
  The order that the ordering claim describes, written from its words for a list \<open>out\<close> and
  the candidates in scan order: of two entries that are not tied the more similar comes
  first, of two tied entries with different preference the preferred comes first, and two
  tied entries with the same preference keep their scan order.
\<close>

definition occursBefore :: "'a list \<Rightarrow> 'a \<Rightarrow> 'a \<Rightarrow> bool" where
  "occursBefore xs a b \<longleftrightarrow> b \<in> set (drop 1 (dropWhile (\<lambda>x. x \<noteq> a) xs))"

definition claimedOrder :: "string set option \<Rightarrow> IconMatch list \<Rightarrow> IconMatch list \<Rightarrow> bool" where
  "claimedOrder preferSet cands out \<longleftrightarrow>
     sorted_wrt
       (\<lambda>a b. if tied a b
               then (if preferred preferSet a = preferred preferSet b then occursBefore cands a b
                     else preferred preferSet a)
               else similarity a > similarity b)
       out"


definition storedGunzip :: gunzip where
  "storedGunzip b = (case b of [] \<Rightarrow> Inl ExternalError | header # payload \<Rightarrow> Inr payload)"

text \<open>
  Inputs for the builder: a sprite sheet text that ignores its icons (the rasteriser
  \<open>flatRaster\<close> does not read it), two well-named icons, an icon whose name contains a
  newline, and an icon whose name is empty.
\<close>

definition plainSheet :: spriteSheet where
  "plainSheet batch cols iconWidth = ''<svg/>''"

definition twoIcons :: "IconInput list" where
  "twoIcons = [\<lparr>IconInput.name = ''a:b'', svg = ''<svg/>''\<rparr>,
               \<lparr>IconInput.name = ''c:d'', svg = ''<svg/>''\<rparr>]"


definition emptyIcon :: IconInput where
  "emptyIcon = \<lparr>IconInput.name = [], svg = ''<svg/>''\<rparr>"

section \<open>The offset-based scan and the reference distance\<close>

lemma byteAt_slice:
  "k < n \<Longrightarrow> off + n \<le> length buf \<Longrightarrow> byteAt (take n (drop off buf)) k = byteAt buf (off + k)"
  by (simp add: byteAt_def)

lemma xorWord_slice:
  "i + 3 < n \<Longrightarrow> off + n \<le> length buf \<Longrightarrow>
   xorWord h i (take n (drop off buf)) i = xorWord h i buf (off + i)"
  by (simp add: xorWord_def byteAt_slice add.assoc)

lemma loops_agree:
  "length h = 128 \<Longrightarrow> off + 128 \<le> length buf \<Longrightarrow> i mod 4 = 0 \<Longrightarrow>
   hammingLoop h (take 128 (drop off buf)) i d = atOffsetLoop h buf off i d"
proof (induction h buf off i d rule: atOffsetLoop.induct)
  case (1 h1 indexHashes offset i distance)
  show ?case
  proof (cases "i < 128")
    case True
    with "1.prems" have i3: "i + 3 < 128" by presburger
    have m: "(i + 4) mod 4 = 0" using "1.prems" by presburger
    have "hammingLoop h1 (take 128 (drop offset indexHashes)) (i + 4)
            (distance + popcount32 (xorWord h1 i indexHashes (offset + i)))
          = atOffsetLoop h1 indexHashes offset (i + 4)
            (distance + popcount32 (xorWord h1 i indexHashes (offset + i)))"
      using "1.IH" True "1.prems" m by (simp add: HASH_BYTES_def)
    then show ?thesis
      using True "1.prems" xorWord_slice [OF i3 "1.prems"(2), of h1]
      by (subst hammingLoop.simps, subst atOffsetLoop.simps) (simp add: HASH_BYTES_def)
  next
    case False
    then show ?thesis
      using "1.prems"
      by (subst hammingLoop.simps, subst atOffsetLoop.simps) (simp add: HASH_BYTES_def)
  qed
qed

text \<open>
  Claim C7. For a 128-byte query hash \<open>h\<close> and a record index \<open>i\<close> whose 128 bytes lie
  inside the backing buffer, the offset-based routine called at \<open>i * 128\<close> returns what
  \<open>hammingDistance\<close> returns on \<open>h\<close> and the 128-byte slice of the buffer that starts
  there.
\<close>

theorem hammingDistanceAtOffset_refines:
  assumes "length h = 128" and "i * 128 + 128 \<le> length buf"
  shows "hammingDistance h (take 128 (drop (i * 128) buf))
         = Inr (hammingDistanceAtOffset h buf (i * 128))"
  using assms loops_agree [of h "i * 128" buf 0 0]
  by (simp add: hammingDistance_def hammingDistanceAtOffset_def)

theorem hammingDistanceAtOffset_refines_witness:
  "length (replicate 128 (0 :: byte)) = 128
   \<and> 1 * 128 + 128 \<le> length (replicate 128 (0 :: byte) @ 1 # replicate 127 255)
   \<and> hammingDistance (replicate 128 0)
        (take 128 (drop (1 * 128) (replicate 128 0 @ 1 # replicate 127 255)))
      = Inr (hammingDistanceAtOffset (replicate 128 0)
               (replicate 128 0 @ 1 # replicate 127 255) (1 * 128))"
proof -
  have a: "length (replicate 128 (0 :: byte)) = 128" by simp
  have b: "1 * 128 + 128 \<le> length (replicate 128 (0 :: byte) @ 1 # replicate 127 255)"
    by simp
  show ?thesis
    using a b hammingDistanceAtOffset_refines [OF a b] by blast
qed

section \<open>Buffers of different lengths\<close>

text \<open>
  Claim C6. When the two buffers differ in length, \<open>hammingDistance\<close> and
  \<open>hashSimilarity\<close> both fail with the length-mismatch error; neither returns a number.
\<close>

theorem length_mismatch_fails:
  assumes "length h1 \<noteq> length h2"
  shows "hammingDistance h1 h2 = Inl (HashLengthMismatch (length h1) (length h2))
       \<and> hashSimilarity h1 h2 = Inl (HashLengthMismatch (length h1) (length h2))"
  using assms by (simp add: hammingDistance_def hashSimilarity_def)

theorem length_mismatch_fails_witness:
  "length (replicate 128 (0 :: byte)) \<noteq> length (replicate 64 (0 :: byte))
   \<and> hammingDistance (replicate 128 0) (replicate 64 0) = Inl (HashLengthMismatch 128 64)
   \<and> hashSimilarity (replicate 128 0) (replicate 64 0) = Inl (HashLengthMismatch 128 64)"
proof -
  have a: "length (replicate 128 (0 :: byte)) \<noteq> length (replicate 64 (0 :: byte))"
    by simp
  show ?thesis
    using a length_mismatch_fails [OF a] by simp
qed
section \<open>The bit trick counts bits\<close>

lemma and_split:
  fixes a b :: nat
  shows "a AND b = (a mod 2 ^ k AND b mod 2 ^ k) + 2 ^ k * (a div 2 ^ k AND b div 2 ^ k)"
proof -
  have "push_bit k (drop_bit k (a AND b)) + take_bit k (a AND b) = a AND b"
    by (rule bits_ident)
  moreover have "take_bit k (a AND b) = a mod 2 ^ k AND b mod 2 ^ k"
    by (simp flip: take_bit_eq_mod)
  moreover have "push_bit k (drop_bit k (a AND b)) = 2 ^ k * (a div 2 ^ k AND b div 2 ^ k)"
    by (simp add: push_bit_eq_mult mult.commute del: push_bit_and flip: drop_bit_eq_div)
  ultimately show ?thesis
    by (simp only: add.commute)
qed

lemma and16:
  fixes n m y z :: nat
  assumes "n < 16" "m < 16"
  shows "(n + 16 * y) AND (m + 16 * z) = (n AND m) + 16 * (y AND z)"
  using assms and_split [of "n + 16 * y" "m + 16 * z" 4] by simp

lemma d1_all: "\<forall>n\<in>set [0..<16]. \<forall>t\<in>set [0..<2]. (n div 2 + 8 * t) AND (5::nat) = (n div 2) AND 5"
  by code_simp

lemma d1: "(n::nat) < 16 \<Longrightarrow> t < 2 \<Longrightarrow> (n div 2 + 8 * t) AND 5 = (n div 2) AND 5"
  using d1_all by simp

lemma d2_all: "\<forall>n\<in>set [0..<16]. \<forall>t\<in>set [0..<4]. (n div 4 + 4 * t) AND (3::nat) = (n div 4) AND 3"
  by code_simp

lemma d2: "(n::nat) < 16 \<Longrightarrow> t < 4 \<Longrightarrow> (n div 4 + 4 * t) AND 3 = (n div 4) AND 3"
  using d2_all by simp

lemma val16_shift1_mask:
  "\<forall>n\<in>set ns. n < 16 \<Longrightarrow>
   (val16 ns div 2) AND val16 (replicate (length ns) 5) = val16 (map (\<lambda>n. (n div 2) AND 5) ns)"
proof (induction ns)
  case Nil
  then show ?case by simp
next
  case (Cons n ns)
  let ?V = "val16 ns"
  have n: "n < 16" using Cons.prems by simp
  have "n + 16 * ?V = n + (8 * ?V) * 2" by simp
  then have "(n + 16 * ?V) div 2 = n div 2 + 8 * ?V"
    by (simp only: div_mult_self3)
  moreover have "8 * ?V = 8 * (?V mod 2) + 16 * (?V div 2)"
    using mult_div_mod_eq [of 2 ?V] by linarith
  ultimately have e: "(n + 16 * ?V) div 2 = (n div 2 + 8 * (?V mod 2)) + 16 * (?V div 2)"
    by simp
  have "n div 2 < 8" using n by simp
  moreover have "?V mod 2 < 2" by simp
  ultimately have b: "n div 2 + 8 * (?V mod 2) < 16" by linarith
  have "((n + 16 * ?V) div 2) AND (5 + 16 * val16 (replicate (length ns) 5))
        = ((n div 2 + 8 * (?V mod 2)) AND 5) + 16 * ((?V div 2) AND val16 (replicate (length ns) 5))"
    unfolding e using b by (intro and16) simp_all
  also have "(n div 2 + 8 * (?V mod 2)) AND 5 = (n div 2) AND 5"
    using n by (intro d1) simp_all
  finally show ?case using Cons by simp
qed

lemma val16_shift2_mask:
  "\<forall>n\<in>set ns. n < 16 \<Longrightarrow>
   (val16 ns div 4) AND val16 (replicate (length ns) 3) = val16 (map (\<lambda>n. (n div 4) AND 3) ns)"
proof (induction ns)
  case Nil
  then show ?case by simp
next
  case (Cons n ns)
  let ?V = "val16 ns"
  have n: "n < 16" using Cons.prems by simp
  have "n + 16 * ?V = n + (4 * ?V) * 4" by simp
  then have "(n + 16 * ?V) div 4 = n div 4 + 4 * ?V"
    by (simp only: div_mult_self3)
  moreover have "4 * ?V = 4 * (?V mod 4) + 16 * (?V div 4)"
    using mult_div_mod_eq [of 4 ?V] by linarith
  ultimately have e: "(n + 16 * ?V) div 4 = (n div 4 + 4 * (?V mod 4)) + 16 * (?V div 4)"
    by simp
  have "n div 4 < 4" using n by simp
  moreover have "?V mod 4 < 4" by simp
  ultimately have b: "n div 4 + 4 * (?V mod 4) < 16" by linarith
  have "((n + 16 * ?V) div 4) AND (3 + 16 * val16 (replicate (length ns) 3))
        = ((n div 4 + 4 * (?V mod 4)) AND 3) + 16 * ((?V div 4) AND val16 (replicate (length ns) 3))"
    unfolding e using b by (intro and16) simp_all
  also have "(n div 4 + 4 * (?V mod 4)) AND 3 = (n div 4) AND 3"
    using n by (intro d2) simp_all
  finally show ?case using Cons by simp
qed

lemma val16_mask:
  "\<forall>n\<in>set ns. n < 16 \<Longrightarrow> m < 16 \<Longrightarrow>
   val16 ns AND val16 (replicate (length ns) m) = val16 (map (\<lambda>n. n AND m) ns)"
  by (induction ns) (simp_all add: and16)

lemma val16_map_le:
  "\<forall>n\<in>set ns. g n \<le> n \<Longrightarrow> val16 (map g ns) \<le> val16 ns"
  by (induction ns) (simp_all add: add_mono)

lemma val16_sub:
  "\<forall>n\<in>set ns. g n \<le> n \<Longrightarrow> val16 ns - val16 (map g ns) = val16 (map (\<lambda>n. n - g n) ns)"
proof (induction ns)
  case Nil
  then show ?case by simp
next
  case (Cons n ns)
  have "val16 (map g ns) \<le> val16 ns" using Cons.prems by (intro val16_map_le) simp
  moreover have "g n \<le> n" using Cons.prems by simp
  moreover have "val16 ns - val16 (map g ns) = val16 (map (\<lambda>n. n - g n) ns)"
    using Cons by simp
  ultimately show ?case by simp
qed

lemma val16_add:
  "val16 (map f ns) + val16 (map g ns) = val16 (map (\<lambda>n. f n + g n) ns)"
  by (induction ns) simp_all

lemma nib_all: "\<forall>n\<in>set [0..<16]. ((n div 2) AND 5) \<le> n \<and> nib1 n < 16 \<and> nib2 n = cnt 4 n \<and> nib2 n \<le> 4"
  by code_simp

lemma step12:
  assumes "\<forall>n\<in>set ns. n < 16"
  shows "(let x = val16 ns; x1 = x - ((x div 2) AND val16 (replicate (length ns) 5))
          in (x1 AND val16 (replicate (length ns) 3)) + ((x1 div 4) AND val16 (replicate (length ns) 3)))
         = val16 (map (cnt 4) ns)"
proof -
  let ?x = "val16 ns"
  have le: "\<forall>n\<in>set ns. ((n div 2) AND 5) \<le> n" using assms nib_all by simp
  have x1: "?x - ((?x div 2) AND val16 (replicate (length ns) 5)) = val16 (map nib1 ns)"
    using val16_sub [of ns "\<lambda>n. (n div 2) AND 5", OF le]
    by (simp add: val16_shift1_mask [OF assms] nib1_def [abs_def])
  have d: "\<forall>n\<in>set (map nib1 ns). n < 16" using assms nib_all by simp
  have a: "val16 (map nib1 ns) AND val16 (replicate (length ns) 3)
           = val16 (map (\<lambda>n. nib1 n AND 3) ns)"
    using val16_mask [OF d, of 3] by (simp add: comp_def)
  have b: "(val16 (map nib1 ns) div 4) AND val16 (replicate (length ns) 3)
           = val16 (map (\<lambda>n. (nib1 n div 4) AND 3) ns)"
    using val16_shift2_mask [OF d] by (simp add: comp_def)
  have "val16 (map nib2 ns) = val16 (map (cnt 4) ns)"
    using assms nib_all by (intro arg_cong [of _ _ val16]) simp
  then show ?thesis
    by (simp add: Let_def x1 a b val16_add nib2_def [abs_def])
qed


lemma val16_and_zip:
  "length ns = length ms \<Longrightarrow> \<forall>n\<in>set ns. n < 16 \<Longrightarrow> \<forall>m\<in>set ms. m < 16 \<Longrightarrow>
   val16 ns AND val16 ms = val16 (map (\<lambda>(n, m). n AND m) (zip ns ms))"
  by (induction ns ms rule: list_induct2) (simp_all add: and16)

lemma val16_div16: "n < 16 \<Longrightarrow> val16 (n # ns) div 16 = val16 ns"
  by simp

lemma and15: "(q::nat) < 16 \<Longrightarrow> q AND 15 = q"
proof -
  assume a: "q < 16"
  have "q AND mask 4 = take_bit 4 q" by (simp add: take_bit_eq_mask)
  then show ?thesis using a by (simp add: mask_eq_exp_minus_1 take_bit_eq_mod)
qed

lemma step3:
  fixes p0 p1 p2 p3 p4 p5 p6 p7 :: nat
  assumes "p0 \<le> 4" "p1 \<le> 4" "p2 \<le> 4" "p3 \<le> 4" "p4 \<le> 4" "p5 \<le> 4" "p6 \<le> 4" "p7 \<le> 4"
  shows "(val16 [p0, p1, p2, p3, p4, p5, p6, p7] + val16 [p0, p1, p2, p3, p4, p5, p6, p7] div 16)
           AND 0x0f0f0f0f
         = (p0 + p1) + 256 * (p2 + p3) + 65536 * (p4 + p5) + 16777216 * (p6 + p7)"
proof -
  let ?x2 = "val16 [p0, p1, p2, p3, p4, p5, p6, p7]"
  let ?qs = "[p0 + p1, p1 + p2, p2 + p3, p3 + p4, p4 + p5, p5 + p6, p6 + p7, p7]"
  have dv: "?x2 div 16 = val16 [p1, p2, p3, p4, p5, p6, p7]"
    using assms by (intro val16_div16) simp
  have s: "?x2 + ?x2 div 16 = val16 ?qs"
    unfolding dv by simp
  have m: "(0x0f0f0f0f :: nat) = val16 [15, 0, 15, 0, 15, 0, 15, 0]"
    by simp
  have "val16 ?qs AND val16 [15, 0, 15, 0, 15, 0, 15, 0]
        = val16 (map (\<lambda>(n, m). n AND m) (zip ?qs [15, 0, 15, 0, 15, 0, 15, 0]))"
    using assms by (intro val16_and_zip) simp_all
  also have "\<dots> = val16 [p0 + p1, 0, p2 + p3, 0, p4 + p5, 0, p6 + p7, 0]"
    using assms by (simp add: and15)
  also have "\<dots> = (p0 + p1) + 256 * (p2 + p3) + 65536 * (p4 + p5) + 16777216 * (p6 + p7)"
    by simp
  finally show ?thesis
    unfolding s m .
qed

lemma step4:
  fixes c0 c1 c2 c3 :: nat
  assumes "c0 \<le> 8" "c1 \<le> 8" "c2 \<le> 8" "c3 \<le> 8"
  shows "(((c0 + 256 * c1 + 65536 * c2 + 16777216 * c3) * 0x01010101) mod 2 ^ 32) div 2 ^ 24
         = c0 + c1 + c2 + c3"
proof -
  let ?L = "c0 + 256 * (c0 + c1) + 65536 * (c0 + c1 + c2)"
  let ?S = "c0 + c1 + c2 + c3"
  let ?H = "c1 + c2 + c3 + 256 * (c2 + c3) + 65536 * c3"
  have e: "(c0 + 256 * c1 + 65536 * c2 + 16777216 * c3) * 0x01010101
           = (?L + 16777216 * ?S) + 4294967296 * ?H"
    by (simp add: algebra_simps)
  have "?L \<le> 8 + 256 * (8 + 8) + 65536 * (8 + 8 + 8)"
    using assms by (intro add_mono mult_le_mono2)
  then have l: "?L < 16777216" by simp
  have "?L + 16777216 * ?S \<le> (8 + 256 * (8 + 8) + 65536 * (8 + 8 + 8)) + 16777216 * (8 + 8 + 8 + 8)"
    using assms by (intro add_mono mult_le_mono2)
  then have t: "?L + 16777216 * ?S < 4294967296" by simp
  have "((?L + 16777216 * ?S) + 4294967296 * ?H) mod 4294967296 = ?L + 16777216 * ?S"
    using t by (simp only: mod_mult_self2 mod_less)
  moreover have "(?L + 16777216 * ?S) div 16777216 = ?S"
    using l by simp
  ultimately show ?thesis
    unfolding e by simp
qed

lemma cnt_le: "cnt k x \<le> k"
  using length_filter_le [of "bit x" "[0..<k]"] by (simp add: cnt_def)

lemma popcount_nat_val16:
  assumes "n0 < 16" "n1 < 16" "n2 < 16" "n3 < 16" "n4 < 16" "n5 < 16" "n6 < 16" "n7 < 16"
  shows "popcount_nat (val16 [n0, n1, n2, n3, n4, n5, n6, n7])
         = cnt 4 n0 + cnt 4 n1 + cnt 4 n2 + cnt 4 n3 + cnt 4 n4 + cnt 4 n5 + cnt 4 n6 + cnt 4 n7"
proof -
  let ?ns = "[n0, n1, n2, n3, n4, n5, n6, n7]"
  have d: "\<forall>n\<in>set ?ns. n < 16" using assms by simp
  have m5: "(0x55555555 :: nat) = val16 (replicate (length ?ns) 5)" by simp
  have m3: "(0x33333333 :: nat) = val16 (replicate (length ?ns) 3)" by simp
  have x2: "(let x = val16 ?ns; x1 = x - ((x div 2) AND 0x55555555)
             in (x1 AND 0x33333333) + ((x1 div 4) AND 0x33333333))
            = val16 (map (cnt 4) ?ns)"
    unfolding m5 m3 by (rule step12 [OF d])
  have x3: "(val16 (map (cnt 4) ?ns) + val16 (map (cnt 4) ?ns) div 16) AND 0x0f0f0f0f
            = (cnt 4 n0 + cnt 4 n1) + 256 * (cnt 4 n2 + cnt 4 n3)
              + 65536 * (cnt 4 n4 + cnt 4 n5) + 16777216 * (cnt 4 n6 + cnt 4 n7)"
    using step3 [of "cnt 4 n0" "cnt 4 n1" "cnt 4 n2" "cnt 4 n3" "cnt 4 n4" "cnt 4 n5"
        "cnt 4 n6" "cnt 4 n7"]
    by (simp only: list.map cnt_le)
  have c: "cnt 4 a + cnt 4 b \<le> 8" for a b
    using cnt_le [of 4 a] cnt_le [of 4 b] by simp
  have "popcount_nat (val16 ?ns)
        = ((((cnt 4 n0 + cnt 4 n1) + 256 * (cnt 4 n2 + cnt 4 n3)
              + 65536 * (cnt 4 n4 + cnt 4 n5) + 16777216 * (cnt 4 n6 + cnt 4 n7)) * 0x01010101)
            mod 2 ^ 32) div 2 ^ 24"
    using x2 x3 unfolding popcount_nat_def Let_def by (simp only:)
  also have "\<dots> = (cnt 4 n0 + cnt 4 n1) + (cnt 4 n2 + cnt 4 n3)
                    + (cnt 4 n4 + cnt 4 n5) + (cnt 4 n6 + cnt 4 n7)"
    by (rule step4) (rule c)+
  finally show ?thesis by simp
qed

lemma js_ushr_nat:
  assumes "X < 2 ^ 32" "k < 32"
  shows "js_ushr (int X) k = int (X div 2 ^ k)"
proof -
  have "take_bit 32 (int X) = int X"
    using assms(1) by (simp add: take_bit_int_eq_self)
  then show ?thesis
    using assms(2) by (simp add: js_ushr_def ToUint32_def drop_bit_eq_div zdiv_int)
qed

lemma ToInt32_and_small:
  assumes "0 \<le> m" "m < 2 ^ 31"
  shows "ToInt32 a AND m = a AND m"
proof -
  have m: "m = take_bit 31 m"
    using assms by (simp add: take_bit_int_eq_self)
  have "signed_take_bit 31 a AND take_bit 31 m = a AND take_bit 31 m"
    by (rule bit_eqI) (auto simp add: bit_simps)
  then show ?thesis
    unfolding ToInt32_def using m by simp
qed

lemma js_and_nat:
  assumes "m < 2 ^ 31"
  shows "js_and (int A) (int m) = int (A AND m)"
proof -
  have "ToInt32 (int m) = int m"
    using assms by (simp add: ToInt32_def signed_take_bit_int_eq_self)
  moreover have "ToInt32 (int A) AND int m = int A AND int m"
    using assms by (intro ToInt32_and_small) simp_all
  ultimately show ?thesis
    by (simp add: js_and_def of_nat_and_eq)
qed

lemma imul_ushr_nat:
  "js_ushr (Math_imul (int a) (int b)) 24 = int (((a * b) mod 2 ^ 32) div 2 ^ 24)"
proof -
  have "take_bit 32 (signed_take_bit 31 (signed_take_bit 31 (int a) * signed_take_bit 31 (int b)))
        = take_bit 32 (signed_take_bit 31 (int a) * signed_take_bit 31 (int b))"
    by (simp add: take_bit_signed_take_bit)
  also have "\<dots> = take_bit 32 (take_bit 32 (signed_take_bit 31 (int a))
                                 * take_bit 32 (signed_take_bit 31 (int b)))"
    by (simp only: take_bit_mult)
  also have "\<dots> = take_bit 32 (take_bit 32 (int a) * take_bit 32 (int b))"
    by (simp add: take_bit_signed_take_bit)
  also have "\<dots> = take_bit 32 (int a * int b)"
    by (simp only: take_bit_mult)
  finally have "ToUint32 (Math_imul (int a) (int b)) = int ((a * b) mod 2 ^ 32)"
    by (simp add: ToUint32_def Math_imul_def ToInt32_def take_bit_eq_mod zmod_int)
  then show ?thesis
    by (simp add: js_ushr_def drop_bit_eq_div zdiv_int)
qed


lemma and_nat_le1: "(a::nat) AND b \<le> a"
proof -
  have "int a AND int b \<le> int a" by simp
  then show ?thesis by (simp flip: of_nat_and_eq)
qed

lemma and_nat_le2: "(a::nat) AND b \<le> b"
  using and_nat_le1 [of b a] by (simp add: and.commute)

lemma popcount32_nat:
  assumes "X < 2 ^ 32"
  shows "popcount32 (int X) = int (popcount_nat X)"
proof -
  define M where "M = (X div 2) AND 0x55555555"
  define x1 where "x1 = X - M"
  define x2 where "x2 = (x1 AND 0x33333333) + ((x1 div 4) AND 0x33333333)"
  define x3 where "x3 = (x2 + x2 div 16) AND 0x0f0f0f0f"
  have M_le: "M \<le> X"
    using and_nat_le1 [of "X div 2" "0x55555555"] by (simp add: M_def)
  have x1_lt: "x1 < 2 ^ 32"
    using assms by (simp add: x1_def)
  have "x2 \<le> 0x33333333 + 0x33333333"
    unfolding x2_def by (intro add_mono and_nat_le2)
  then have x2_lt: "x2 < 2 ^ 32" by simp
  have a: "js_and (js_ushr (int X) 1) 0x55555555 = int M"
    using js_ushr_nat [OF assms, of 1] js_and_nat [of "0x55555555" "X div 2"]
    by (simp add: M_def)
  have b: "int X - int M = int x1"
    using M_le by (simp add: x1_def)
  have c: "js_and (int x1) 0x33333333 = int (x1 AND 0x33333333)"
    using js_and_nat [of "0x33333333" x1] by simp
  have d: "js_and (js_ushr (int x1) 2) 0x33333333 = int ((x1 div 4) AND 0x33333333)"
    using js_ushr_nat [OF x1_lt, of 2] js_and_nat [of "0x33333333" "x1 div 4"] by simp
  have e: "js_and (int x1) 0x33333333 + js_and (js_ushr (int x1) 2) 0x33333333 = int x2"
    unfolding c d by (simp add: x2_def)
  have f: "js_and (int x2 + js_ushr (int x2) 4) 0x0f0f0f0f = int x3"
    using js_ushr_nat [OF x2_lt, of 4] js_and_nat [of "0x0f0f0f0f" "x2 + x2 div 16"]
    by (simp add: x3_def)
  have g: "js_ushr (Math_imul (int x3) 0x01010101) 24
           = int (((x3 * 0x01010101) mod 2 ^ 32) div 2 ^ 24)"
    using imul_ushr_nat [of x3 "0x01010101"] by simp
  have "popcount32 (int X) = int (((x3 * 0x01010101) mod 2 ^ 32) div 2 ^ 24)"
    unfolding popcount32_def Let_def a b e f g ..
  moreover have "popcount_nat X = ((x3 * 0x01010101) mod 2 ^ 32) div 2 ^ 24"
    unfolding popcount_nat_def Let_def x3_def x2_def x1_def M_def ..
  ultimately show ?thesis by simp
qed

lemma take32_ToInt32: "take_bit 32 (ToInt32 z) = take_bit 32 z"
  by (simp add: ToInt32_def take_bit_signed_take_bit)

lemma ToInt32_small: "0 \<le> a \<Longrightarrow> a < 256 \<Longrightarrow> ToInt32 a = a"
  by (simp add: ToInt32_def signed_take_bit_int_eq_self)

lemma compose_bytes:
  fixes a0 a1 a2 a3 :: int
  assumes "0 \<le> a0" "a0 < 256" "0 \<le> a1" "a1 < 256" "0 \<le> a2" "a2 < 256" "0 \<le> a3" "a3 < 256"
  shows "js_ushr (js_or (js_or (js_or a0 (js_shl a1 8)) (js_shl a2 16)) (js_shl a3 24)) 0
         = a0 + 256 * a1 + 65536 * a2 + 16777216 * a3"
proof -
  have t: "take_bit k a = a" if "0 \<le> a" "a < 256" "8 \<le> k" for a :: int and k
  proof -
    have "(2::int) ^ 8 \<le> 2 ^ k" using that(3) by (intro power_increasing) simp_all
    then have "a < 2 ^ k" using that(2) by simp
    then show ?thesis using that(1) by (simp add: take_bit_int_eq_self)
  qed
  have "js_ushr (js_or (js_or (js_or a0 (js_shl a1 8)) (js_shl a2 16)) (js_shl a3 24)) 0
        = take_bit 32 a0 OR take_bit 32 (push_bit 8 a1) OR take_bit 32 (push_bit 16 a2)
          OR take_bit 32 (push_bit 24 a3)"
    using assms
    by (simp add: js_ushr_def js_or_def js_shl_def ToUint32_def take32_ToInt32 ToInt32_small
        or.assoc)
  also have "\<dots> = a0 OR push_bit 8 a1 OR push_bit 16 a2 OR push_bit 24 a3"
    using assms by (simp add: take_bit_push_bit t)
  also have "\<dots> = concat_bit 8 a0 (concat_bit 8 a1 (concat_bit 8 a2 a3))"
    using assms by (simp add: concat_bit_def t push_bit_or or.assoc)
  also have "\<dots> = a0 + 256 * a1 + 65536 * a2 + 16777216 * a3"
    using assms by (simp add: concat_bit_eq t push_bit_eq_mult)
  finally show ?thesis .
qed

lemma num0_byteAt_range: "0 \<le> num0 (byteAt h i) \<and> num0 (byteAt h i) < 256"
proof (cases "i < length h")
  case True
  have "uint (h ! i) < 2 ^ LENGTH(8)" by (rule uint_lt2p)
  then show ?thesis using True by (simp add: byteAt_def num0_def)
next
  case False
  then show ?thesis by (simp add: byteAt_def num0_def)
qed

lemma js_xor_small:
  assumes "0 \<le> u" "u < 256" "0 \<le> v" "v < 256"
  shows "js_xor u v = u XOR v \<and> 0 \<le> js_xor u v \<and> js_xor u v < 256"
proof -
  have u: "take_bit 8 u = u" and v: "take_bit 8 v = v"
    using assms by (simp_all add: take_bit_int_eq_self)
  have "take_bit 8 (u XOR v) = u XOR v"
    by (simp add: u v)
  then have "0 \<le> u XOR v \<and> u XOR v < 2 ^ 8"
    by (metis take_bit_int_less_exp take_bit_nonnegative)
  then show ?thesis
    using assms by (simp add: js_xor_def ToInt32_small)
qed

lemma js_xor_xorByte:
  "js_xor (num0 (byteAt h1 i)) (num0 (byteAt h2 j)) = int (xorByte h1 i h2 j)
   \<and> xorByte h1 i h2 j < 256"
proof -
  let ?x = "js_xor (num0 (byteAt h1 i)) (num0 (byteAt h2 j))"
  have "0 \<le> ?x \<and> ?x < 256"
    using js_xor_small [of "num0 (byteAt h1 i)" "num0 (byteAt h2 j)"]
      num0_byteAt_range [of h1 i] num0_byteAt_range [of h2 j]
    by blast
  then show ?thesis
    unfolding xorByte_def by linarith
qed

lemma xorWord_value:
  "xorWord h1 i h2 j
   = int (xorByte h1 i h2 j + 256 * xorByte h1 (i + 1) h2 (j + 1)
          + 65536 * xorByte h1 (i + 2) h2 (j + 2) + 16777216 * xorByte h1 (i + 3) h2 (j + 3))"
  using compose_bytes [of "int (xorByte h1 i h2 j)" "int (xorByte h1 (i + 1) h2 (j + 1))"
      "int (xorByte h1 (i + 2) h2 (j + 2))" "int (xorByte h1 (i + 3) h2 (j + 3))"]
    js_xor_xorByte [of h1 i h2 j] js_xor_xorByte [of h1 "i + 1" h2 "j + 1"]
    js_xor_xorByte [of h1 "i + 2" h2 "j + 2"] js_xor_xorByte [of h1 "i + 3" h2 "j + 3"]
  by (simp add: xorWord_def)

lemma cnt_split: "cnt 8 a = cnt 4 (a mod 16) + cnt 4 (a div 16)"
proof -
  have l: "[0..<8] = [0..<4] @ map (\<lambda>j. j + 4) [0..<4]"
    by (simp add: upt_rec)
  have a: "filter (bit a) [0..<4] = filter (bit (a mod 16)) [0..<4]"
    using bit_take_bit_iff [of 4 a] by (intro filter_cong) (simp_all add: take_bit_eq_mod)
  have b: "bit a (j + 4) = bit (a div 16) j" for j
    using bit_drop_bit_eq [of 4 a] by (simp add: drop_bit_eq_div add.commute)
  show ?thesis
    unfolding cnt_def l by (simp add: filter_map comp_def a b del: upt_Suc)
qed

lemma popcount_nat_bytes:
  assumes "a0 < 256" "a1 < 256" "a2 < 256" "a3 < 256"
  shows "popcount_nat (a0 + 256 * a1 + 65536 * a2 + 16777216 * a3)
         = cnt 8 a0 + cnt 8 a1 + cnt 8 a2 + cnt 8 a3"
proof -
  have e: "a0 + 256 * a1 + 65536 * a2 + 16777216 * a3
           = val16 [a0 mod 16, a0 div 16, a1 mod 16, a1 div 16,
                    a2 mod 16, a2 div 16, a3 mod 16, a3 div 16]"
    using mult_div_mod_eq [of 16 a0] mult_div_mod_eq [of 16 a1]
      mult_div_mod_eq [of 16 a2] mult_div_mod_eq [of 16 a3]
    by simp
  show ?thesis
    unfolding e using assms
    by (subst popcount_nat_val16) (simp_all add: cnt_split)
qed


section \<open>The distance is the number of differing bits\<close>

lemma popcount32_xorWord:
  "popcount32 (xorWord h1 i h2 j)
   = int (cnt 8 (xorByte h1 i h2 j) + cnt 8 (xorByte h1 (i + 1) h2 (j + 1))
          + cnt 8 (xorByte h1 (i + 2) h2 (j + 2)) + cnt 8 (xorByte h1 (i + 3) h2 (j + 3)))"
proof -
  let ?a0 = "xorByte h1 i h2 j" and ?a1 = "xorByte h1 (i + 1) h2 (j + 1)"
  let ?a2 = "xorByte h1 (i + 2) h2 (j + 2)" and ?a3 = "xorByte h1 (i + 3) h2 (j + 3)"
  let ?X = "?a0 + 256 * ?a1 + 65536 * ?a2 + 16777216 * ?a3"
  have b: "?a0 < 256" "?a1 < 256" "?a2 < 256" "?a3 < 256"
    using js_xor_xorByte by blast+
  then have "?a0 \<le> 255" "?a1 \<le> 255" "?a2 \<le> 255" "?a3 \<le> 255"
    by simp_all
  then have "?X \<le> 255 + 256 * 255 + 65536 * 255 + 16777216 * 255"
    by (intro add_mono mult_le_mono2)
  then have "?X < 2 ^ 32" by simp
  then have "popcount32 (int ?X) = int (popcount_nat ?X)"
    by (rule popcount32_nat)
  then show ?thesis
    unfolding xorWord_value popcount_nat_bytes [OF b] .
qed

lemma cnt_xorByte:
  assumes "length h1 = length h2"
  shows "cnt 8 (xorByte h1 k h2 k) = (if k < length h1 then byteDiff (h1 ! k) (h2 ! k) else 0)"
proof (cases "k < length h1")
  case True
  have x: "js_xor (uint (h1 ! k)) (uint (h2 ! k)) = uint (h1 ! k) XOR uint (h2 ! k)"
    using js_xor_small [of "uint (h1 ! k)" "uint (h2 ! k)"]
      uint_lt2p [of "h1 ! k"] uint_lt2p [of "h2 ! k"] by simp
  have "xorByte h1 k h2 k = unat ((h1 ! k) XOR (h2 ! k))"
  proof -
    have "unat ((h1 ! k) XOR (h2 ! k)) = nat (uint ((h1 ! k) XOR (h2 ! k)))"
      by (rule unat_eq_nat_uint)
    also have "uint ((h1 ! k) XOR (h2 ! k)) = uint (h1 ! k) XOR uint (h2 ! k)"
      by (rule uint_xor)
    finally show ?thesis
      using True assms by (simp add: xorByte_def byteAt_def num0_def x)
  qed
  moreover have "bit (unat ((h1 ! k) XOR (h2 ! k))) = (\<lambda>j. bit (h1 ! k) j \<noteq> bit (h2 ! k) j)"
    by (rule ext) (simp add: bit_unsigned_iff bit_xor_iff)
  ultimately show ?thesis
    using True by (simp add: cnt_def byteDiff_def)
next
  case False
  then have "xorByte h1 k h2 k = 0"
    using assms by (simp add: xorByte_def byteAt_def num0_def js_xor_def ToInt32_def)
  then show ?thesis
    using False by (simp add: cnt_def)
qed


lemma sum_peel4:
  fixes g :: "nat \<Rightarrow> nat"
  shows "(\<Sum>k\<in>{i..<n}. g k)
         = (if i < n then g i else 0) + (if i + 1 < n then g (i + 1) else 0)
           + (if i + 2 < n then g (i + 2) else 0) + (if i + 3 < n then g (i + 3) else 0)
           + (\<Sum>k\<in>{i + 4..<n}. g k)"
proof -
  have step: "(\<Sum>k\<in>{j..<n}. g k) = (if j < n then g j else 0) + (\<Sum>k\<in>{Suc j..<n}. g k)" for j
    by (simp add: sum.atLeast_Suc_lessThan)
  show ?thesis
    using step [of i] step [of "Suc i"] step [of "Suc (Suc i)"] step [of "Suc (Suc (Suc i))"]
    by (simp add: eval_nat_numeral)
qed

lemma hammingLoop_sum:
  assumes "length h1 = length h2"
  shows "hammingLoop h1 h2 i d = d + int (\<Sum>k\<in>{i..<length h1}. byteDiff (h1 ! k) (h2 ! k))"
  using assms
proof (induction h1 h2 i d rule: hammingLoop.induct)
  case (1 h1 h2 i distance)
  show ?case
  proof (cases "i < length h1")
    case True
    have w: "popcount32 (xorWord h1 i h2 i)
             = int ((if i < length h1 then byteDiff (h1 ! i) (h2 ! i) else 0)
                  + (if i + 1 < length h1 then byteDiff (h1 ! (i + 1)) (h2 ! (i + 1)) else 0)
                  + (if i + 2 < length h1 then byteDiff (h1 ! (i + 2)) (h2 ! (i + 2)) else 0)
                  + (if i + 3 < length h1 then byteDiff (h1 ! (i + 3)) (h2 ! (i + 3)) else 0))"
      unfolding popcount32_xorWord cnt_xorByte [OF "1.prems"] ..
    have "hammingLoop h1 h2 i distance
          = hammingLoop h1 h2 (i + 4) (distance + popcount32 (xorWord h1 i h2 i))"
      using True by (subst hammingLoop.simps) simp
    also have "\<dots> = distance + popcount32 (xorWord h1 i h2 i)
                     + int (\<Sum>k\<in>{i + 4..<length h1}. byteDiff (h1 ! k) (h2 ! k))"
      using "1.IH" [OF True "1.prems"] .
    finally show ?thesis
      unfolding w sum_peel4 [of "\<lambda>k. byteDiff (h1 ! k) (h2 ! k)" i "length h1"] by simp
  next
    case False
    then show ?thesis
      by (subst hammingLoop.simps) simp
  qed
qed

lemma length_filter_product:
  "length (filter (\<lambda>(i, j). P i j) (List.product xs ys))
   = sum_list (map (\<lambda>i. length (filter (P i) ys)) xs)"
  by (induction xs) (simp_all add: filter_map comp_def)

lemma differingBits_sum:
  "differingBits h1 h2 = (\<Sum>k\<in>{0..<length h1}. byteDiff (h1 ! k) (h2 ! k))"
  unfolding differingBits_def length_filter_product byteDiff_def
  by (simp add: interv_sum_list_conv_sum_set_nat)

lemma hammingDistance_differingBits:
  "length h1 = length h2 \<Longrightarrow> hammingDistance h1 h2 = Inr (int (differingBits h1 h2))"
  by (simp add: hammingDistance_def hammingLoop_sum differingBits_sum)

lemma byteDiff_sym: "byteDiff a b = byteDiff b a"
  unfolding byteDiff_def by (intro arg_cong [of _ _ length] filter_cong) auto

lemma byteDiff_self: "byteDiff a a = 0"
  by (simp add: byteDiff_def)

lemma differingBits_sym: "length h1 = length h2 \<Longrightarrow> differingBits h1 h2 = differingBits h2 h1"
  by (simp add: differingBits_sum byteDiff_sym [of "h1 ! _"])

lemma differingBits_self: "differingBits h h = 0"
  by (simp add: differingBits_sum byteDiff_self)

lemma byteDiff_00_ff: "byteDiff 0 255 = 8"
  by (simp add: byteDiff_def upt_rec bit_numeral_rec)

lemma differingBits_00_ff: "differingBits (replicate 128 0) (replicate 128 255) = 1024"
  by (simp add: differingBits_sum byteDiff_00_ff)

text \<open>
  Claim C3. For two buffers of equal length, \<open>hammingDistance\<close> returns the number of
  bit positions at which they differ, as the position-by-position count \<open>differingBits\<close>
  gives it. Hence it is symmetric, it is 0 on a buffer and itself, and it is 1024 on 128
  bytes of \<open>0x00\<close> against 128 bytes of \<open>0xFF\<close>.
\<close>

theorem hammingDistance_counts_differing_bits:
  assumes "length h1 = length h2"
  shows "hammingDistance h1 h2 = Inr (int (differingBits h1 h2))
       \<and> hammingDistance h1 h2 = hammingDistance h2 h1
       \<and> hammingDistance h1 h1 = Inr 0
       \<and> hammingDistance (replicate 128 0) (replicate 128 255) = Inr 1024"
  using assms hammingDistance_differingBits [of h1 h2] hammingDistance_differingBits [of h2 h1]
    hammingDistance_differingBits [of h1 h1]
    hammingDistance_differingBits [of "replicate 128 0" "replicate 128 255"]
  by (simp add: differingBits_sym differingBits_self differingBits_00_ff)

theorem hammingDistance_counts_differing_bits_witness:
  "length [0x0F, 0x00, 0x01, 0xFF, 0x80 :: byte] = length [0xF0, 0x00, 0x00, 0x00, 0x00 :: byte]
   \<and> hammingDistance [0x0F, 0x00, 0x01, 0xFF, 0x80] [0xF0, 0x00, 0x00, 0x00, 0x00] = Inr 18
   \<and> hammingDistance [0xF0, 0x00, 0x00, 0x00, 0x00] [0x0F, 0x00, 0x01, 0xFF, 0x80] = Inr 18"
proof -
  have a: "length [0x0F, 0x00, 0x01, 0xFF, 0x80 :: byte]
           = length [0xF0, 0x00, 0x00, 0x00, 0x00 :: byte]"
    by simp
  have v: "differingBits [0x0F, 0x00, 0x01, 0xFF, 0x80] [0xF0, 0x00, 0x00, 0x00, 0x00] = 18"
    by code_simp
  show ?thesis
    using a v hammingDistance_counts_differing_bits [OF a] by auto
qed

section \<open>What the difference hash stores\<close>

lemma js_shr_128: "r < 8 \<Longrightarrow> js_shr 128 r = 2 ^ (7 - r)"
proof -
  assume r: "r < 8"
  have "ToInt32 128 = 128" by (simp add: ToInt32_def)
  moreover have "drop_bit r ((2::int) ^ 7) = 2 ^ (7 - r)"
    using r by (simp only: drop_bit_exp_eq) simp
  ultimately show ?thesis using r by (simp add: js_shr_def)
qed

lemma byte_or:
  assumes "0 \<le> v" "v < 256" "r < 8"
  shows "js_or v (js_shr 128 r) = v OR 2 ^ (7 - r)"
    and "0 \<le> v OR 2 ^ (7 - r)" and "v OR 2 ^ (7 - r) < 256"
proof -
  have p: "(2::int) ^ (7 - r) \<le> 2 ^ 7" by (intro power_increasing) simp_all
  then have p': "(2::int) ^ (7 - r) < 256" by simp
  have "ToInt32 (2 ^ (7 - r)) = 2 ^ (7 - r)"
    using p' by (intro ToInt32_small) simp_all
  moreover have "ToInt32 v = v"
    using assms by (intro ToInt32_small)
  ultimately show "js_or v (js_shr 128 r) = v OR 2 ^ (7 - r)"
    using assms(3) by (simp add: js_or_def js_shr_128)
  show "0 \<le> v OR 2 ^ (7 - r)" using assms by simp
  have "v OR 2 ^ (7 - r) < 2 ^ 8"
    using assms p' by (intro OR_upper) simp_all
  then show "v OR 2 ^ (7 - r) < 256" by simp
qed


lemma packInv_step:
  assumes "packInv bs st"
  shows "packInv (bs @ [b]) (pushBit b st)"
proof -
  define t where "t = length bs"
  define q where "q = t div 8"
  define r where "r = t mod 8"
  define v where "v = (if b then byte st OR 2 ^ (7 - r) else byte st)"
  from assms have len: "length (hash st) = 128" and bi: "byteIndex st = q"
    and bb: "bitInByte st = r" and v0: "0 \<le> byte st" "byte st < 256"
    and e: "\<And>m. bit (byte st) m \<longleftrightarrow> m < 8 \<and> 7 - m < r \<and> bs ! (8 * q + (7 - m))"
    and f: "\<And>i m. i < 128 \<Longrightarrow> i < q \<Longrightarrow> m < 8 \<Longrightarrow> bit (hash st ! i) m \<longleftrightarrow> bs ! (8 * i + (7 - m))"
    and g: "\<And>i. i < 128 \<Longrightarrow> q \<le> i \<Longrightarrow> hash st ! i = 0"
    by (simp_all add: packInv_def HASH_BYTES_def t_def q_def r_def)
  have r8: "r < 8" by (simp add: r_def)
  have tq: "t = 8 * q + r" by (simp add: q_def r_def)
  have vb: "0 \<le> v" "v < 256"
    using byte_or(2,3) [OF v0 r8] v0 by (simp_all add: v_def)
  have byte1: "(if b then js_or (byte st) (js_shr 128 (bitInByte st)) else byte st) = v"
    using byte_or(1) [OF v0 r8] by (simp add: v_def bb)
  have nth_old: "(bs @ [b]) ! k = bs ! k" if "k < t" for k
    using that by (simp add: nth_append t_def)
  have "(bs @ [b]) ! t = b"
    by (simp add: t_def)
  then have nth_new: "(bs @ [b]) ! (8 * q + r) = b"
    by (simp only: tq)
  have vbit: "bit v m \<longleftrightarrow> m < 8 \<and> 7 - m < r + 1 \<and> (bs @ [b]) ! (8 * q + (7 - m))" for m
  proof (cases "m < 8 \<and> 7 - m = r")
    case True
    then have m: "m = 7 - r" "7 - m = r" by linarith+
    have "\<not> bit (byte st) m" using e [of m] True by simp
    then have "bit v m \<longleftrightarrow> b"
      by (simp add: v_def bit_or_iff bit_exp_iff m(1))
    then show ?thesis using True nth_new by (simp add: m(2))
  next
    case False
    have "bit v m \<longleftrightarrow> bit (byte st) m"
    proof (cases "m < 8")
      case True
      with False have "m \<noteq> 7 - r" using r8 by linarith
      then show ?thesis by (simp add: v_def bit_or_iff bit_exp_iff)
    next
      case m8: False
      then have "m \<noteq> 7 - r" by linarith
      then show ?thesis by (simp add: v_def bit_or_iff bit_exp_iff)
    qed
    moreover have "(bs @ [b]) ! (8 * q + (7 - m)) = bs ! (8 * q + (7 - m))" if "7 - m < r"
      using that tq by (intro nth_old) simp
    ultimately show ?thesis
      using False e [of m] by auto
  qed
  have olds: "(bs @ [b]) ! (8 * i + (7 - m)) = bs ! (8 * i + (7 - m))" if "i < q" for i m
    using that tq by (intro nth_old) simp
  show ?thesis
  proof (cases "r = 7")
    case True
    have st': "pushBit b st
               = \<lparr>hash = store (hash st) q v, byteIndex = q + 1, byte = 0, bitInByte = 0\<rparr>"
      using byte1 by (simp add: pushBit_def Let_def bb bi True)
    have "length (bs @ [b]) = 8 * (q + 1)" using tq True by (simp add: t_def)
    then have l': "length (bs @ [b]) div 8 = q + 1" "length (bs @ [b]) mod 8 = 0"
      by simp_all
    have h1: "store (hash st) q v ! i = hash st ! i" if "i \<noteq> q" for i
      using that by (simp add: store_def)
    have h2: "bit (store (hash st) q v ! q) m \<longleftrightarrow> (bs @ [b]) ! (8 * q + (7 - m))"
      if "q < 128" "m < 8" for m
    proof -
      have "7 - m < 8" by linarith
      then show ?thesis
        using that vbit [of m] True by (simp add: store_def len bit_word_of_int_iff)
    qed
    have F: "bit (store (hash st) q v ! i) m \<longleftrightarrow> (bs @ [b]) ! (8 * i + (7 - m))"
      if "i < 128" "i < q + 1" "m < 8" for i m
    proof (cases "i = q")
      case True
      then show ?thesis using h2 that by simp
    next
      case False
      then have "i < q" using that by simp
      then show ?thesis using h1 [OF False] f [OF that(1) _ that(3)] olds by simp
    qed
    have G: "store (hash st) q v ! i = 0" if "i < 128" "q + 1 \<le> i" for i
      using that h1 [of i] g [of i] by simp
    show ?thesis
      unfolding packInv_def st' l' using F G
      by (simp add: HASH_BYTES_def store_def len)
  next
    case False
    then have r7: "r + 1 < 8" using r8 by simp
    have st': "pushBit b st = st\<lparr>byte := v, bitInByte := r + 1\<rparr>"
      using byte1 False r8 by (simp add: pushBit_def Let_def bb)
    have "length (bs @ [b]) = 8 * q + (r + 1)" using tq by (simp add: t_def)
    then have l': "length (bs @ [b]) div 8 = q" "length (bs @ [b]) mod 8 = r + 1"
      using r7 by simp_all
    have F: "bit (hash st ! i) m \<longleftrightarrow> (bs @ [b]) ! (8 * i + (7 - m))"
      if "i < 128" "i < q" "m < 8" for i m
      using f [OF that] olds [OF that(2)] by simp
    show ?thesis
      unfolding packInv_def st' l' using vb vbit F g len bi
      by (simp add: HASH_BYTES_def)
  qed
qed

lemma packInv_init: "packInv [] initialState"
  by (simp add: packInv_def initialState_def HASH_BYTES_def)

lemma packInv_fold: "packInv bs (fold pushBit bs initialState)"
  by (induction bs rule: rev_induct) (simp_all add: packInv_init packInv_step)

lemma compareStep_pushBit: "compareStep data ro = (\<lambda>x. pushBit (darker data (ro + x)))"
  by (intro ext) (simp add: compareStep_def pushBit_def darker_def)

lemma fold_fold_product:
  "fold (\<lambda>y. fold (g y) xs) ys st = fold (\<lambda>(y, x). g y x) (List.product ys xs) st"
  by (induction ys arbitrary: st) (simp_all add: fold_map comp_def)

lemma computeHashFromPixels_fold:
  "computeHashFromPixels data sz rw = hash (fold pushBit (comparisons data sz rw) initialState)"
  unfolding computeHashFromPixels_def comparisons_def fold_fold_product fold_map
  by (simp add: compareStep_pushBit comp_def case_prod_unfold)

lemma length_comparisons: "length (comparisons data sz rw) = sz * sz"
  by (simp add: comparisons_def)

lemma nth_comparisons:
  assumes "x < sz" "y < sz"
  shows "comparisons data sz rw ! (y * sz + x) = darker data (y * rw + x)"
proof -
  have "(y + 1) * sz \<le> sz * sz" using assms(2) by (intro mult_le_mono1) simp
  then have n: "y * sz + x < sz * sz" using assms(1) by simp
  have "List.product [0..<sz] [0..<sz] ! (y * sz + x) = (y, x)"
    using n assms by (simp add: product_nth)
  then show ?thesis
    using n by (simp add: comparisons_def)
qed

lemma computeHashFromPixels_length: "length (computeHashFromPixels data sz rw) = 128"
  using packInv_fold [of "comparisons data sz rw"]
  by (simp add: computeHashFromPixels_fold packInv_def HASH_BYTES_def)

lemma computeHashFromPixels_rest_zero:
  "i < 128 \<Longrightarrow> sz * sz div 8 \<le> i \<Longrightarrow> computeHashFromPixels data sz rw ! i = 0"
  using packInv_fold [of "comparisons data sz rw"]
  by (simp add: computeHashFromPixels_fold packInv_def HASH_BYTES_def length_comparisons)

lemma computeHashFromPixels_bit:
  assumes "x < sz" "y < sz"
    and "(y * sz + x) div 8 < 128" "(y * sz + x) div 8 < sz * sz div 8"
  shows "bit (computeHashFromPixels data sz rw ! ((y * sz + x) div 8)) (7 - (y * sz + x) mod 8)
         \<longleftrightarrow> darker data (y * rw + x)"
proof -
  let ?k = "y * sz + x"
  let ?m = "7 - ?k mod 8"
  have m: "?m < 8" by linarith
  have "?k mod 8 < 8" by simp
  then have "7 - ?m = ?k mod 8" by linarith
  then have idx: "8 * (?k div 8) + (7 - ?m) = ?k" by simp
  have "bit (computeHashFromPixels data sz rw ! (?k div 8)) ?m
        \<longleftrightarrow> comparisons data sz rw ! (8 * (?k div 8) + (7 - ?m))"
    using packInv_fold [of "comparisons data sz rw"] assms(3,4) m
    unfolding computeHashFromPixels_fold packInv_def HASH_BYTES_def length_comparisons
    by blast
  then show ?thesis
    unfolding idx nth_comparisons [OF assms(1,2)] .
qed

lemma darker_in_range:
  assumes "i + 1 < length data"
  shows "darker data i \<longleftrightarrow> data ! i < data ! (i + 1)"
  using assms by (simp add: darker_def js_lt_def byteAt_def word_less_def)

lemma pixel_in_range:
  fixes x y sz :: nat
  assumes "x < sz" "y < sz"
  shows "y * (sz + 1) + x + 1 < (sz + 1) * sz"
proof -
  have "(y + 1) * (sz + 1) \<le> sz * (sz + 1)"
    using mult_le_mono1 [of "y + 1" sz "sz + 1"] assms(2) by simp
  then show ?thesis using assms(1) by (simp add: algebra_simps)
qed

lemma dhash_bit_general:
  assumes "length data = (sz + 1) * sz" "x < sz" "y < sz"
    and "(y * sz + x) div 8 < 128" "(y * sz + x) div 8 < sz * sz div 8"
  shows "bit (computeHashFromPixels data sz (sz + 1) ! ((y * sz + x) div 8))
             (7 - (y * sz + x) mod 8)
         \<longleftrightarrow> data ! (y * (sz + 1) + x) < data ! (y * (sz + 1) + x + 1)"
  using computeHashFromPixels_bit [OF assms(2-5), of data "sz + 1"]
    darker_in_range [of "y * (sz + 1) + x" data] pixel_in_range [OF assms(2,3)] assms(1)
  by simp

lemma dhash_bit_size_32:
  assumes "length data = 33 * 32" "x < 32" "y < 32"
  shows "bit (computeHashFromPixels data 32 33 ! ((y * 32 + x) div 8)) (7 - (y * 32 + x) mod 8)
         \<longleftrightarrow> data ! (y * 33 + x) < data ! (y * 33 + x + 1)"
proof -
  have "y * 32 + x < 1024" using assms(2,3) by linarith
  then have "(y * 32 + x) div 8 < 128" by simp
  then show ?thesis
    using dhash_bit_general [of data 32 x y] assms by simp
qed

lemma square_1024:
  fixes sz :: nat
  shows "sz * sz = 1024 \<longleftrightarrow> sz = 32"
proof
  assume s: "sz * sz = 1024"
  show "sz = 32"
  proof (rule ccontr)
    assume "sz \<noteq> 32"
    then consider "sz \<le> 31" | "33 \<le> sz" by linarith
    then show False
    proof cases
      case 1
      then have "sz * sz \<le> 31 * 31" by (intro mult_le_mono)
      then show False using s by simp
    next
      case 2
      then have "33 * 33 \<le> sz * sz" by (intro mult_le_mono)
      then show False using s by simp
    qed
  qed
qed simp

lemma computeDHash_length:
  "computeDHash sharp source sz = Inr h \<Longrightarrow> length h = 128"
  by (auto simp add: computeDHash_def computeHashFromPixels_length split: sum.splits)

lemma zero_byte_if_no_bit:
  fixes w :: byte
  assumes "\<And>m. m < 8 \<Longrightarrow> \<not> bit w m"
  shows "w = 0"
  using assms by (intro bit_word_eqI) simp

lemma computeHashFromPixels_flat:
  assumes "\<And>i. \<not> darker data i"
  shows "computeHashFromPixels data sz rw = replicate 128 0"
proof (rule nth_equalityI)
  show "length (computeHashFromPixels data sz rw) = length (replicate 128 (0 :: byte))"
    by (simp add: computeHashFromPixels_length)
next
  fix i
  assume "i < length (computeHashFromPixels data sz rw)"
  then have i: "i < 128" by (simp add: computeHashFromPixels_length)
  have c: "\<not> comparisons data sz rw ! k" if "k < sz * sz" for k
    using that assms by (simp add: comparisons_def case_prod_unfold)
  have "computeHashFromPixels data sz rw ! i = 0"
  proof (cases "sz * sz div 8 \<le> i")
    case True
    then show ?thesis using i by (rule computeHashFromPixels_rest_zero [rotated])
  next
    case False
    then have lt: "i < sz * sz div 8" by simp
    have "\<not> bit (computeHashFromPixels data sz rw ! i) m" if "m < 8" for m
    proof -
      have "8 * i + (7 - m) < sz * sz" using lt by linarith
      then have "\<not> comparisons data sz rw ! (8 * i + (7 - m))" by (rule c)
      moreover have "bit (computeHashFromPixels data sz rw ! i) m
                     \<longleftrightarrow> comparisons data sz rw ! (8 * i + (7 - m))"
        using packInv_fold [of "comparisons data sz rw"] i lt that
        unfolding computeHashFromPixels_fold packInv_def HASH_BYTES_def length_comparisons
        by blast
      ultimately show ?thesis by simp
    qed
    then show ?thesis by (rule zero_byte_if_no_bit)
  qed
  then show "computeHashFromPixels data sz rw ! i = replicate 128 0 ! i"
    using i by simp
qed

lemma not_darker_replicate: "\<not> darker (replicate n c) i"
  by (simp add: darker_def js_lt_def byteAt_def)

text \<open>
  Claim C4, as amended. For a pixel buffer of \<open>(sz + 1) * sz\<close> bytes and a comparison
  index \<open>k = y * sz + x\<close> whose byte \<open>k div 8\<close> lies inside the 128-byte fingerprint and
  is one of the \<open>sz * sz div 8\<close> bytes the loop completes, bit \<open>7 - k mod 8\<close> of byte
  \<open>k div 8\<close> is set exactly when pixel \<open>(x, y)\<close> is strictly darker than pixel
  \<open>(x + 1, y)\<close>. For \<open>sz = 32\<close> these are all 1024 comparisons (lemma
  \<open>dhash_bit_size_32\<close>).
\<close>

theorem dhash_bit_layout:
  assumes "length data = (sz + 1) * sz" and "x < sz" and "y < sz"
    and "(y * sz + x) div 8 < 128" and "(y * sz + x) div 8 < sz * sz div 8"
  shows "bit (computeHashFromPixels data sz (sz + 1) ! ((y * sz + x) div 8))
             (7 - (y * sz + x) mod 8)
         \<longleftrightarrow> data ! (y * (sz + 1) + x) < data ! (y * (sz + 1) + x + 1)"
  using assms by (rule dhash_bit_general)

theorem dhash_bit_layout_witness:
  "length [0, 1, 1, 0, 1, 0, 0, 0, 5, 4, 9, 8, 7, 6, 5, 1, 2, 3, 4, 5 :: byte] = (4 + 1) * 4
   \<and> (1 :: nat) < 4 \<and> (3 :: nat) < 4
   \<and> (3 * 4 + 1) div 8 < (128 :: nat) \<and> (3 * 4 + 1) div 8 < (4 * 4 div 8 :: nat)
   \<and> (bit (computeHashFromPixels
              [0, 1, 1, 0, 1, 0, 0, 0, 5, 4, 9, 8, 7, 6, 5, 1, 2, 3, 4, 5] 4 (4 + 1)
            ! ((3 * 4 + 1) div 8)) (7 - (3 * 4 + 1) mod 8)
        \<longleftrightarrow> [0, 1, 1, 0, 1, 0, 0, 0, 5, 4, 9, 8, 7, 6, 5, 1, 2, 3, 4, 5 :: byte] ! (3 * (4 + 1) + 1)
            < [0, 1, 1, 0, 1, 0, 0, 0, 5, 4, 9, 8, 7, 6, 5, 1, 2, 3, 4, 5] ! (3 * (4 + 1) + 1 + 1))
   \<and> [0, 1, 1, 0, 1, 0, 0, 0, 5, 4, 9, 8, 7, 6, 5, 1, 2, 3, 4, 5 :: byte] ! (3 * (4 + 1) + 1)
       < [0, 1, 1, 0, 1, 0, 0, 0, 5, 4, 9, 8, 7, 6, 5, 1, 2, 3, 4, 5] ! (3 * (4 + 1) + 1 + 1)"
proof -
  let ?data = "[0, 1, 1, 0, 1, 0, 0, 0, 5, 4, 9, 8, 7, 6, 5, 1, 2, 3, 4, 5 :: byte]"
  have a: "length ?data = (4 + 1) * 4" by simp
  have b: "(1 :: nat) < 4" and c: "(3 :: nat) < 4" by simp_all
  have d: "(3 * 4 + 1) div 8 < (128 :: nat)" and e: "(3 * 4 + 1) div 8 < (4 * 4 div 8 :: nat)"
    by simp_all
  have f: "?data ! (3 * (4 + 1) + 1) < ?data ! (3 * (4 + 1) + 1 + 1)" by simp
  show ?thesis
    using a b c d e f dhash_bit_layout [OF a b c d e] by blast
qed

text \<open>
  The claim as stated, for every \<open>sz\<close>, fails at \<open>sz = 2\<close>: four comparisons never
  fill a byte, so nothing is written, although pixel \<open>(0, 0)\<close> is darker than pixel
  \<open>(1, 0)\<close>.
\<close>

theorem dhash_bit_layout_counterexample:
  "length [0, 1, 1, 0, 0, 0 :: byte] = (2 + 1) * 2
   \<and> [0, 1, 1, 0, 0, 0 :: byte] ! (0 * (2 + 1) + 0) < [0, 1, 1, 0, 0, 0] ! (0 * (2 + 1) + 0 + 1)
   \<and> \<not> bit (computeHashFromPixels [0, 1, 1, 0, 0, 0] 2 (2 + 1) ! ((0 * 2 + 0) div 8))
            (7 - (0 * 2 + 0) mod 8)"
proof -
  have "computeHashFromPixels [0, 1, 1, 0, 0, 0] 2 (2 + 1) = replicate 128 0"
    by code_simp
  then show ?thesis by simp
qed

text \<open>
  Claim C9, as amended. Whatever \<open>sz\<close> and the pixel buffer are, the fingerprint has
  exactly 128 bytes, that is 1024 bits; this is \<open>sz * sz\<close> bits exactly when \<open>sz = 32\<close>.
  The bytes from index \<open>sz * sz div 8\<close> on carry no comparison and are 0, and a
  fingerprint returned by \<open>computeDHash\<close> has 128 bytes as well.
\<close>

theorem fingerprint_always_128_bytes:
  "length (computeHashFromPixels data sz rowWidth) = HASH_BYTES
   \<and> (8 * length (computeHashFromPixels data sz rowWidth) = sz * sz \<longleftrightarrow> sz = 32)
   \<and> (\<forall>i. i < HASH_BYTES \<and> sz * sz div 8 \<le> i
          \<longrightarrow> computeHashFromPixels data sz rowWidth ! i = 0)
   \<and> (\<forall>h. computeDHash sharp source sz = Inr h \<longrightarrow> length h = HASH_BYTES)"
  using square_1024 [of sz]
  by (auto simp add: computeHashFromPixels_length computeHashFromPixels_rest_zero
      computeDHash_length HASH_BYTES_def)

theorem fingerprint_always_128_bytes_witness:
  "length (computeHashFromPixels [0, 1, 1, 0, 0, 0] 2 3) = HASH_BYTES
   \<and> 8 * length (computeHashFromPixels [0, 1, 1, 0, 0, 0] 2 3) \<noteq> 2 * 2
   \<and> (5 < HASH_BYTES \<and> 2 * 2 div 8 \<le> (5 :: nat))
   \<and> computeHashFromPixels [0, 1, 1, 0, 0, 0] 2 3 ! 5 = 0
   \<and> computeDHash (\<lambda>f s w h. Inr [0, 1, 1, 0, 0, 0]) ''<svg/>'' 2
       = Inr (computeHashFromPixels [0, 1, 1, 0, 0, 0] 2 3)
   \<and> length (computeHashFromPixels [0, 1, 1, 0, 0, 0] 2 3) = HASH_BYTES"
proof -
  have a: "5 < HASH_BYTES \<and> 2 * 2 div 8 \<le> (5 :: nat)" by (simp add: HASH_BYTES_def)
  have b: "computeDHash (\<lambda>f s w h. Inr [0, 1, 1, 0, 0, 0]) ''<svg/>'' 2
           = Inr (computeHashFromPixels [0, 1, 1, 0, 0, 0] 2 3)"
    by (simp add: computeDHash_def)
  show ?thesis
    using a b
      fingerprint_always_128_bytes
        [of "[0, 1, 1, 0, 0, 0]" 2 3 "\<lambda>f s w h. Inr [0, 1, 1, 0, 0, 0]" "''<svg/>''"]
    by auto
qed

text \<open>
  The claim as stated fails at \<open>sz = 1\<close>: the one comparison of the two-pixel buffer is
  never written, and the fingerprint still has 1024 bits, all 0.
\<close>

theorem fingerprint_size_counterexample:
  "length [0, 1 :: byte] = (1 + 1) * 1
   \<and> computeHashFromPixels [0, 1] 1 (1 + 1) = replicate 128 0
   \<and> 8 * length (computeHashFromPixels [0, 1] 1 (1 + 1)) \<noteq> 1 * 1"
proof -
  have "computeHashFromPixels [0, 1] 1 (1 + 1) = replicate 128 0"
    by code_simp
  then show ?thesis by simp
qed

section \<open>Threshold and limit of the matcher\<close>

lemma set_insertBy: "set (insertBy cmp x ys) = insert x (set ys)"
  by (induction ys) auto

lemma length_insertBy: "length (insertBy cmp x ys) = Suc (length ys)"
  by (induction ys) auto

lemma set_sortBy: "set (sortBy cmp xs) = set xs"
  by (induction xs) (simp_all add: sortBy_def set_insertBy)

lemma length_sortBy: "length (sortBy cmp xs) = length xs"
  by (induction xs) (simp_all add: sortBy_def length_insertBy)

lemma sortBy_Cons: "sortBy cmp (x # xs) = insertBy cmp x (sortBy cmp xs)"
  by (simp add: sortBy_def)

lemma sortBy_Nil: "sortBy cmp [] = []"
  by (simp add: sortBy_def)

lemma set_slice0: "set (slice0 xs e) \<subseteq> set xs"
  by (auto simp add: slice0_def dest: in_set_takeD)

lemma length_slice0: "0 \<le> e \<Longrightarrow> int (length (slice0 xs e)) \<le> e"
  by (simp add: slice0_def)

lemma slice0_Nil: "slice0 [] e = []"
  by (simp add: slice0_def)

text \<open>What the scan loop keeps.\<close>

lemma scanStep_cases:
  "scanStep h index ps td thr i acc = acc
   \<or> (scanStep h index ps td thr i acc
        = acc @ [\<lparr>name = IconIndex.names index ! i,
                   similarity = 1 - of_int (hammingDistanceAtOffset h (IconIndex.hashes index)
                                              (i * HASH_BYTES)) / of_nat (HASH_BYTES * 8)\<rparr>]
      \<and> 1 - of_int (hammingDistanceAtOffset h (IconIndex.hashes index) (i * HASH_BYTES))
             / of_nat (HASH_BYTES * 8) \<ge> thr)"
  by (simp add: scanStep_def Let_def split: option.splits)

lemma fold_scanStep_invariant:
  assumes "\<And>i. i \<in> set is \<Longrightarrow>
             1 - of_int (hammingDistanceAtOffset h (IconIndex.hashes index) (i * HASH_BYTES))
                 / of_nat (HASH_BYTES * 8) \<ge> thr
             \<Longrightarrow> P \<lparr>name = IconIndex.names index ! i,
                     similarity = 1 - of_int (hammingDistanceAtOffset h (IconIndex.hashes index)
                                                (i * HASH_BYTES)) / of_nat (HASH_BYTES * 8)\<rparr>"
    and "\<forall>m\<in>set acc. P m"
  shows "\<forall>m\<in>set (fold (scanStep h index ps td thr) is acc). P m"
  using assms
proof (induction "is" arbitrary: acc)
  case Nil
  then show ?case by simp
next
  case (Cons i "is")
  have "\<forall>m\<in>set (scanStep h index ps td thr i acc). P m"
    using scanStep_cases [of h index ps td thr i acc] Cons.prems(1) [of i] Cons.prems(2)
    by auto
  then show ?case
    using Cons.IH [of "scanStep h index ps td thr i acc"] Cons.prems(1) by simp
qed

lemma candidates_threshold:
  "\<forall>m\<in>set (candidates h index options). similarity m \<ge> thresholdOf options"
  unfolding candidates_def scanMatches_def
  by (rule fold_scanStep_invariant) simp_all

lemma fold_scanStep_empty:
  assumes "\<And>i. i \<in> set is \<Longrightarrow>
             1 - of_int (hammingDistanceAtOffset h (IconIndex.hashes index) (i * HASH_BYTES))
                 / of_nat (HASH_BYTES * 8) < thr"
  shows "fold (scanStep h index ps td thr) is acc = acc"
  using assms
proof (induction "is" arbitrary: acc)
  case Nil
  then show ?case by simp
next
  case (Cons i "is")
  have "scanStep h index ps td thr i acc = acc"
    using scanStep_cases [of h index ps td thr i acc] Cons.prems [of i] by auto
  then show ?case using Cons by simp
qed

lemma candidates_empty:
  assumes "\<forall>i<length (IconIndex.names index).
             1 - of_int (hammingDistanceAtOffset h (IconIndex.hashes index) (i * HASH_BYTES)) / 1024
             < thresholdOf options"
  shows "candidates h index options = []"
  unfolding candidates_def scanMatches_def
  using assms by (intro fold_scanStep_empty) (simp add: HASH_BYTES_def)

lemma rankMatches_subset: "set (rankMatches h index options) \<subseteq> set (candidates h index options)"
  using set_slice0 [of "sortBy (compareMatches (optionSet (prefer' options)))
                          (candidates h index options)" "limitOf options"]
  by (simp add: rankMatches_def set_sortBy)

section \<open>The sort and the order of the matches\<close>

lemma totalOn_subset: "totalOn cmp S \<Longrightarrow> T \<subseteq> S \<Longrightarrow> totalOn cmp T"
  unfolding totalOn_def by blast

lemma transOn_subset: "transOn cmp S \<Longrightarrow> T \<subseteq> S \<Longrightarrow> transOn cmp T"
  unfolding transOn_def by blast

lemma sorted_insertBy:
  "sorted_wrt (\<lambda>a b. cmp a b \<le> 0) ys \<Longrightarrow> totalOn cmp (insert x (set ys))
   \<Longrightarrow> transOn cmp (insert x (set ys))
   \<Longrightarrow> sorted_wrt (\<lambda>a b. cmp a b \<le> 0) (insertBy cmp x ys)"
proof (induction ys)
  case Nil
  then show ?case by simp
next
  case (Cons y ys)
  have srt: "sorted_wrt (\<lambda>a b. cmp a b \<le> 0) ys" and yz: "\<forall>z\<in>set ys. cmp y z \<le> 0"
    using Cons.prems(1) by simp_all
  show ?case
  proof (cases "cmp x y \<le> 0")
    case True
    have "\<forall>z\<in>set ys. cmp x z \<le> 0"
      using Cons.prems(3) True yz unfolding transOn_def by (metis insertCI list.set(2))
    then show ?thesis using True srt yz by simp
  next
    case False
    have yx: "cmp y x \<le> 0"
      using Cons.prems(2) False unfolding totalOn_def by (metis insertCI list.set(2))
    have "sorted_wrt (\<lambda>a b. cmp a b \<le> 0) (insertBy cmp x ys)"
    proof (rule Cons.IH [OF srt])
      show "totalOn cmp (insert x (set ys))"
        by (rule totalOn_subset [OF Cons.prems(2)]) auto
      show "transOn cmp (insert x (set ys))"
        by (rule transOn_subset [OF Cons.prems(3)]) auto
    qed
    moreover have "\<forall>z\<in>set (insertBy cmp x ys). cmp y z \<le> 0"
      using yx yz by (simp add: set_insertBy)
    ultimately show ?thesis using False by simp
  qed
qed

lemma sorted_sortBy:
  "totalOn cmp (set xs) \<Longrightarrow> transOn cmp (set xs)
   \<Longrightarrow> sorted_wrt (\<lambda>a b. cmp a b \<le> 0) (sortBy cmp xs)"
proof (induction xs)
  case Nil
  then show ?case by (simp add: sortBy_Nil)
next
  case (Cons x xs)
  have s: "sorted_wrt (\<lambda>a b. cmp a b \<le> 0) (sortBy cmp xs)"
  proof (rule Cons.IH)
    show "totalOn cmp (set xs)" by (rule totalOn_subset [OF Cons.prems(1)]) auto
    show "transOn cmp (set xs)" by (rule transOn_subset [OF Cons.prems(2)]) auto
  qed
  show ?case
    unfolding sortBy_Cons
  proof (rule sorted_insertBy [OF s])
    show "totalOn cmp (insert x (set (sortBy cmp xs)))"
      using Cons.prems(1) by (simp add: set_sortBy)
    show "transOn cmp (insert x (set (sortBy cmp xs)))"
      using Cons.prems(2) by (simp add: set_sortBy)
  qed
qed

lemma filter_insertBy:
  "\<forall>y\<in>set ys. P x \<and> P y \<longrightarrow> cmp x y \<le> 0 \<Longrightarrow>
   filter P (insertBy cmp x ys) = (if P x then x # filter P ys else filter P ys)"
  by (induction ys) auto

lemma filter_sortBy:
  "\<forall>x\<in>set xs. \<forall>y\<in>set xs. P x \<and> P y \<longrightarrow> cmp x y \<le> 0 \<Longrightarrow>
   filter P (sortBy cmp xs) = filter P xs"
proof (induction xs)
  case Nil
  then show ?case by (simp add: sortBy_Nil)
next
  case (Cons x xs)
  have "filter P (sortBy cmp xs) = filter P xs"
    using Cons.prems by (intro Cons.IH) simp
  moreover have "filter P (insertBy cmp x (sortBy cmp xs))
                 = (if P x then x # filter P (sortBy cmp xs) else filter P (sortBy cmp xs))"
    using Cons.prems by (intro filter_insertBy) (simp add: set_sortBy)
  ultimately show ?case by (simp add: sortBy_Cons)
qed

lemma prefix_filter_take: "prefix (filter P (take n xs)) (filter P xs)"
proof -
  have "filter P xs = filter P (take n xs) @ filter P (drop n xs)"
    by (metis append_take_drop_id filter_append)
  then show ?thesis by (simp add: prefix_def)
qed

lemma slice0_take: "\<exists>n. slice0 xs e = take n xs"
  by (auto simp add: slice0_def)

lemma tied_sym: "tied a b \<longleftrightarrow> tied b a"
  by (simp add: tied_def abs_minus_commute)

lemma grid_tied:
  assumes "onGrid a" "onGrid b"
  shows "\<bar>similarity a - similarity b\<bar> \<le> 1 / 1000 \<longleftrightarrow> tied a b"
proof -
  obtain da db :: int where a: "similarity a = 1 - of_int da / 1024"
    and b: "similarity b = 1 - of_int db / 1024"
    using assms unfolding onGrid_def by blast
  have d: "similarity a - similarity b = of_int (db - da) / 1024"
    by (simp add: a b field_simps)
  have "\<bar>similarity a - similarity b\<bar> \<noteq> 1 / 1000"
  proof
    assume "\<bar>similarity a - similarity b\<bar> = 1 / 1000"
    then have "(of_int \<bar>db - da\<bar> :: rat) / 1024 = 1 / 1000"
      by (simp add: d)
    then have "(of_int (\<bar>db - da\<bar> * 1000) :: rat) = of_int 1024"
      by (simp add: field_simps)
    then have e: "\<bar>db - da\<bar> * 1000 = 1024"
      by (simp only: of_int_eq_iff)
    have "(5::int) dvd \<bar>db - da\<bar> * 1000"
      by (rule dvd_mult) simp
    then have "(5::int) dvd 1024"
      by (simp only: e)
    then show False by simp
  qed
  then show ?thesis unfolding tied_def by linarith
qed

lemma cmp_le:
  "compareMatches ps a b \<le> 0 \<longleftrightarrow>
     similarity a - similarity b > 1 / 1000
   \<or> (\<bar>similarity a - similarity b\<bar> \<le> 1 / 1000 \<and> (preferred ps a \<or> \<not> preferred ps b))"
proof (cases "\<bar>similarity b - similarity a\<bar> > 1 / 1000")
  case True
  then have "compareMatches ps a b = similarity b - similarity a"
    by (simp add: compareMatches_def Let_def)
  then show ?thesis using True by linarith
next
  case False
  then have "compareMatches ps a b \<le> 0 \<longleftrightarrow> preferred ps a \<or> \<not> preferred ps b"
    by (auto simp add: compareMatches_def Let_def preferred_def split: option.splits)
  then show ?thesis using False by linarith
qed

lemma cmp_le_grid:
  assumes "onGrid a" "onGrid b"
  shows "compareMatches ps a b \<le> 0 \<longleftrightarrow>
           (if tied a b then preferred ps b \<longrightarrow> preferred ps a
            else similarity a > similarity b)"
proof (cases "tied a b")
  case True
  then have "\<bar>similarity a - similarity b\<bar> \<le> 1 / 1000" "\<not> similarity a - similarity b > 1 / 1000"
    unfolding tied_def by linarith+
  then show ?thesis using True by (auto simp add: cmp_le)
next
  case False
  then have n: "\<not> \<bar>similarity a - similarity b\<bar> \<le> 1 / 1000"
    using grid_tied [OF assms] by simp
  then have "similarity a - similarity b > 1 / 1000 \<longleftrightarrow> similarity a > similarity b"
    by linarith
  then show ?thesis using False n by (simp add: cmp_le)
qed

lemma compareMatches_total:
  assumes "\<forall>m\<in>S. onGrid m"
  shows "totalOn (compareMatches ps) S"
  unfolding totalOn_def
proof (intro ballI)
  fix a b assume "a \<in> S" "b \<in> S"
  then have g: "onGrid a" "onGrid b" using assms by simp_all
  show "compareMatches ps a b \<le> 0 \<or> compareMatches ps b a \<le> 0"
    unfolding cmp_le_grid [OF g] cmp_le_grid [OF g(2,1)]
    using tied_sym [of a b] unfolding tied_def by (auto split: if_splits)
qed

lemma compareMatches_trans:
  assumes "\<forall>m\<in>set ms. onGrid m" "tiesTransitive ms"
  shows "transOn (compareMatches ps) (set ms)"
  unfolding transOn_def
proof (intro ballI impI)
  fix a b c
  assume m: "a \<in> set ms" "b \<in> set ms" "c \<in> set ms"
    and ab: "compareMatches ps a b \<le> 0" and bc: "compareMatches ps b c \<le> 0"
  have g: "onGrid a" "onGrid b" "onGrid c" using assms(1) m by simp_all
  have t1: "tied a b \<Longrightarrow> tied b c \<Longrightarrow> tied a c"
    using assms(2) m unfolding tiesTransitive_def by blast
  have t2: "tied a c \<Longrightarrow> tied b c \<Longrightarrow> tied a b"
    using assms(2) m tied_sym [of b c] unfolding tiesTransitive_def by blast
  have t3: "tied a b \<Longrightarrow> tied a c \<Longrightarrow> tied b c"
    using assms(2) m tied_sym [of a b] unfolding tiesTransitive_def by blast
  from ab have ab': "if tied a b then preferred ps b \<longrightarrow> preferred ps a
                     else similarity a > similarity b"
    unfolding cmp_le_grid [OF g(1,2)] .
  from bc have bc': "if tied b c then preferred ps c \<longrightarrow> preferred ps b
                     else similarity b > similarity c"
    unfolding cmp_le_grid [OF g(2,3)] .
  have "if tied a c then preferred ps c \<longrightarrow> preferred ps a else similarity a > similarity c"
  proof (cases "tied a b")
    case tab: True
    show ?thesis
    proof (cases "tied b c")
      case True
      then show ?thesis using tab ab' bc' t1 by simp
    next
      case False
      then have nac: "\<not> tied a c" using tab t3 by blast
      have "similarity b > similarity c" using bc' False by simp
      moreover have "\<bar>similarity a - similarity b\<bar> < 1 / 1000" using tab by (simp add: tied_def)
      moreover have "\<not> \<bar>similarity b - similarity c\<bar> < 1 / 1000" using False by (simp add: tied_def)
      ultimately have "similarity a > similarity c" by linarith
      then show ?thesis using nac by simp
    qed
  next
    case nab: False
    then have sab: "similarity a > similarity b" using ab' by simp
    show ?thesis
    proof (cases "tied b c")
      case True
      then have nac: "\<not> tied a c" using nab t2 by blast
      have "\<bar>similarity b - similarity c\<bar> < 1 / 1000" using True by (simp add: tied_def)
      moreover have "\<not> \<bar>similarity a - similarity b\<bar> < 1 / 1000" using nab by (simp add: tied_def)
      ultimately have "similarity a > similarity c" using sab by linarith
      then show ?thesis using nac by simp
    next
      case False
      then have sbc: "similarity b > similarity c" using bc' by simp
      have "\<not> \<bar>similarity a - similarity b\<bar> < 1 / 1000" using nab by (simp add: tied_def)
      then have "\<not> \<bar>similarity a - similarity c\<bar> < 1 / 1000" using sab sbc by linarith
      then show ?thesis using sab sbc by (simp add: tied_def)
    qed
  qed
  then show "compareMatches ps a c \<le> 0"
    unfolding cmp_le_grid [OF g(1,3)] .
qed

lemma candidates_onGrid: "\<forall>m\<in>set (candidates h index options). onGrid m"
  unfolding candidates_def scanMatches_def
proof (rule fold_scanStep_invariant)
  fix i
  show "onGrid \<lparr>name = IconIndex.names index ! i,
                similarity = 1 - of_int (hammingDistanceAtOffset h (IconIndex.hashes index)
                                           (i * HASH_BYTES)) / of_nat (HASH_BYTES * 8)\<rparr>"
    unfolding onGrid_def by (rule exI [of _ "hammingDistanceAtOffset h (IconIndex.hashes index)
                                           (i * HASH_BYTES)"]) (simp add: HASH_BYTES_def)
qed simp

lemma sorted_candidates:
  assumes "tiesTransitive (candidates h index options)"
  shows "sorted_wrt (\<lambda>a b. if tied a b then preferred ps b \<longrightarrow> preferred ps a
                           else similarity a > similarity b)
           (sortBy (compareMatches ps) (candidates h index options))"
proof -
  let ?cs = "candidates h index options"
  have g: "\<forall>m\<in>set ?cs. onGrid m" by (rule candidates_onGrid)
  have "sorted_wrt (\<lambda>a b. compareMatches ps a b \<le> 0) (sortBy (compareMatches ps) ?cs)"
    using compareMatches_total [OF g] compareMatches_trans [OF g assms]
    by (rule sorted_sortBy)
  then show ?thesis
  proof (rule sorted_wrt_mono_rel [rotated])
    fix a b
    assume "a \<in> set (sortBy (compareMatches ps) ?cs)" "b \<in> set (sortBy (compareMatches ps) ?cs)"
    then have "onGrid a" "onGrid b" using g by (simp_all add: set_sortBy)
    then show "compareMatches ps a b \<le> 0 \<Longrightarrow>
               (if tied a b then preferred ps b \<longrightarrow> preferred ps a
                else similarity a > similarity b)"
      by (simp only: cmp_le_grid)
  qed
qed

lemma stable_candidates:
  assumes "tiesTransitive (candidates h index options)" "a \<in> set (candidates h index options)"
  shows "filter (sameRank ps a) (sortBy (compareMatches ps) (candidates h index options))
         = filter (sameRank ps a) (candidates h index options)"
proof (rule filter_sortBy, intro ballI impI)
  fix x y
  assume m: "x \<in> set (candidates h index options)" "y \<in> set (candidates h index options)"
    and r: "sameRank ps a x \<and> sameRank ps a y"
  have g: "onGrid x" "onGrid y" using candidates_onGrid m by blast+
  have "tied x a" "tied a y" using r tied_sym [of a x] by (simp_all add: sameRank_def)
  then have "tied x y"
    using assms m unfolding tiesTransitive_def by blast
  moreover have "preferred ps x = preferred ps y" using r by (auto simp add: sameRank_def)
  ultimately show "compareMatches ps x y \<le> 0"
    unfolding cmp_le_grid [OF g] by simp
qed

lemma rankMatches_order:
  assumes "tiesTransitive (candidates h index options)"
  shows "sorted_wrt (\<lambda>a b. if tied a b
                           then preferred (optionSet (prefer' options)) b
                                \<longrightarrow> preferred (optionSet (prefer' options)) a
                           else similarity a > similarity b)
           (rankMatches h index options)
       \<and> (\<forall>a\<in>set (candidates h index options).
            prefix (filter (sameRank (optionSet (prefer' options)) a) (rankMatches h index options))
                   (filter (sameRank (optionSet (prefer' options)) a)
                      (candidates h index options)))"
proof -
  let ?ps = "optionSet (prefer' options)"
  let ?srt = "sortBy (compareMatches ?ps) (candidates h index options)"
  obtain n where n: "rankMatches h index options = take n ?srt"
    using slice0_take [of ?srt "limitOf options"] unfolding rankMatches_def by blast
  have "sorted_wrt (\<lambda>a b. if tied a b then preferred ?ps b \<longrightarrow> preferred ?ps a
                           else similarity a > similarity b) (take n ?srt)"
    using sorted_candidates [OF assms, of ?ps] by (rule sorted_wrt_take)
  moreover have "prefix (filter (sameRank ?ps a) (take n ?srt))
                        (filter (sameRank ?ps a) (candidates h index options))"
    if "a \<in> set (candidates h index options)" for a
    using prefix_filter_take [of "sameRank ?ps a" n ?srt] stable_candidates [OF assms that, of ?ps]
    by simp
  ultimately show ?thesis unfolding n by blast
qed

section \<open>Evaluating the matcher on small indexes\<close>

lemma atOffset_differingBits:
  assumes "length h = 128" "i * 128 + 128 \<le> length buf"
  shows "hammingDistanceAtOffset h buf (i * HASH_BYTES)
         = int (differingBits h (take 128 (drop (i * 128) buf)))"
proof -
  have "atOffsetLoop h buf (i * 128) 0 0 = hammingLoop h (take 128 (drop (i * 128) buf)) 0 0"
    using loops_agree [of h "i * 128" buf 0 0] assms by simp
  also have "\<dots> = int (differingBits h (take 128 (drop (i * 128) buf)))"
    using hammingLoop_sum [of h "take 128 (drop (i * 128) buf)" 0 0] assms
    by (simp add: differingBits_sum)
  finally show ?thesis by (simp add: hammingDistanceAtOffset_def HASH_BYTES_def)
qed

lemma differingBits_zip:
  assumes "length h1 = length h2"
  shows "differingBits h1 h2 = sum_list (map (\<lambda>(a, b). byteDiff a b) (zip h1 h2))"
proof -
  have "map (\<lambda>i. byteDiff (h1 ! i) (h2 ! i)) [0..<length h1] = map (\<lambda>(a, b). byteDiff a b) (zip h1 h2)"
    using assms by (intro nth_equalityI) simp_all
  then show ?thesis
    unfolding differingBits_def length_filter_product byteDiff_def by simp
qed

lemma differingBits_zero_query:
  assumes "length r = n"
  shows "differingBits (replicate n 0) r = sum_list (map (byteDiff 0) r)"
proof -
  have "zip (replicate n (0 :: byte)) r = map (Pair 0) r"
    using assms by (intro nth_equalityI) simp_all
  then show ?thesis
    using assms by (simp add: differingBits_zip comp_def)
qed

lemma byteDiff_values:
  "byteDiff 0 0 = 0" "byteDiff 0 1 = 1" "byteDiff 0 3 = 2" "byteDiff 0 31 = 5"
  by code_simp+

lemma record_distance:
  assumes "length r0 = 128" "length r1 = 128" "length r2 = 128"
  shows "hammingDistanceAtOffset (replicate 128 0) (r0 @ r1 @ r2) (0 * HASH_BYTES)
         = int (sum_list (map (byteDiff 0) r0))"
    and "hammingDistanceAtOffset (replicate 128 0) (r0 @ r1 @ r2) (1 * HASH_BYTES)
         = int (sum_list (map (byteDiff 0) r1))"
    and "hammingDistanceAtOffset (replicate 128 0) (r0 @ r1 @ r2) (2 * HASH_BYTES)
         = int (sum_list (map (byteDiff 0) r2))"
proof -
  have l: "length (replicate 128 (0 :: byte)) = 128" by simp
  show "hammingDistanceAtOffset (replicate 128 0) (r0 @ r1 @ r2) (0 * HASH_BYTES)
        = int (sum_list (map (byteDiff 0) r0))"
    using atOffset_differingBits [OF l, of 0 "r0 @ r1 @ r2"] assms
    by (simp add: differingBits_zero_query)
  show "hammingDistanceAtOffset (replicate 128 0) (r0 @ r1 @ r2) (1 * HASH_BYTES)
        = int (sum_list (map (byteDiff 0) r1))"
    using atOffset_differingBits [OF l, of 1 "r0 @ r1 @ r2"] assms
    by (simp add: differingBits_zero_query)
  show "hammingDistanceAtOffset (replicate 128 0) (r0 @ r1 @ r2) (2 * HASH_BYTES)
        = int (sum_list (map (byteDiff 0) r2))"
    using atOffset_differingBits [OF l, of 2 "r0 @ r1 @ r2"] assms
    by (simp add: differingBits_zero_query)
qed

lemma flat_query_hash:
  "computeDHash (\<lambda>f s w h. Inr (replicate (w * h) 0)) source sz = Inr (replicate 128 0)"
  by (simp add: computeDHash_def computeHashFromPixels_flat not_darker_replicate)

lemma flatRaster_hash: "computeDHash flatRaster source sz = Inr (replicate 128 0)"
  using flat_query_hash [of source sz] by (simp add: flatRaster_def [abs_def])

lemma floor_1024_5: "\<lfloor>1024 / 5 :: rat\<rfloor> = 204"
  by (rule floor_unique) simp_all

lemma option_defaults:
  "thresholdOf (optionsWith l p) = 8 / 10"
  "thresholdDistOf (optionsWith l p) = 204"
  "optionSet (prefixes (optionsWith l p)) = None"
  "sizeOf (optionsWith l p) = 32"
  "limitOf (optionsWith (Some e) p) = e"
  "limitOf (optionsWith None p) = 10"
  "prefer' (optionsWith l p) = p"
  by (simp_all add: thresholdOf_def thresholdDistOf_def optionsWith_def optionSet_def sizeOf_def
      limitOf_def HASH_BYTES_def DEFAULT_SIZE_def floor_1024_5)

lemma chain_distances:
  "hammingDistanceAtOffset (replicate 128 0) (IconIndex.hashes chainIndex) (0 * HASH_BYTES) = 2"
  "hammingDistanceAtOffset (replicate 128 0) (IconIndex.hashes chainIndex) (1 * HASH_BYTES) = 1"
  "hammingDistanceAtOffset (replicate 128 0) (IconIndex.hashes chainIndex) (2 * HASH_BYTES) = 0"
  using record_distance [of "3 # replicate 127 0" "1 # replicate 127 0" "replicate 128 0"]
  by (simp_all add: chainIndex_def byteDiff_values)

lemma chain_candidates:
  "candidates (replicate 128 0) chainIndex (optionsWith l p)
   = [\<lparr>name = ''x:c'', similarity = 511 / 512\<rparr>,
      \<lparr>name = ''x:b'', similarity = 1023 / 1024\<rparr>,
      \<lparr>name = ''x:a'', similarity = 1\<rparr>]"
proof -
  have n: "[0..<length (IconIndex.names chainIndex)] = [0, 1, 2]"
    by (simp add: chainIndex_def upt_rec)
  have nm: "IconIndex.names chainIndex ! 0 = ''x:c''" "IconIndex.names chainIndex ! 1 = ''x:b''"
    "IconIndex.names chainIndex ! 2 = ''x:a''"
    by (simp_all add: chainIndex_def)
  show ?thesis
    unfolding candidates_def scanMatches_def option_defaults n
    using chain_distances nm by (simp add: scanStep_def HASH_BYTES_def)
qed

lemma tie_distances:
  "hammingDistanceAtOffset (replicate 128 0) (IconIndex.hashes tieIndex) (0 * HASH_BYTES) = 0"
  "hammingDistanceAtOffset (replicate 128 0) (IconIndex.hashes tieIndex) (1 * HASH_BYTES) = 5"
  "hammingDistanceAtOffset (replicate 128 0) (IconIndex.hashes tieIndex) (2 * HASH_BYTES) = 0"
  using record_distance [of "replicate 128 0" "31 # replicate 127 0" "replicate 128 0"]
  by (simp_all add: tieIndex_def byteDiff_values)

lemma tie_candidates:
  "candidates (replicate 128 0) tieIndex (optionsWith l p)
   = [\<lparr>name = ''x:a'', similarity = 1\<rparr>,
      \<lparr>name = ''x:far'', similarity = 1019 / 1024\<rparr>,
      \<lparr>name = ''y:b'', similarity = 1\<rparr>]"
proof -
  have n: "[0..<length (IconIndex.names tieIndex)] = [0, 1, 2]"
    by (simp add: tieIndex_def upt_rec)
  have nm: "IconIndex.names tieIndex ! 0 = ''x:a''" "IconIndex.names tieIndex ! 1 = ''x:far''"
    "IconIndex.names tieIndex ! 2 = ''y:b''"
    by (simp_all add: tieIndex_def)
  show ?thesis
    unfolding candidates_def scanMatches_def option_defaults n
    using tie_distances nm by (simp add: scanStep_def HASH_BYTES_def)
qed

lemma prefix_values:
  "prefixOf ''x:a'' = ''x''" "prefixOf ''x:b'' = ''x''" "prefixOf ''x:c'' = ''x''"
  "prefixOf ''x:far'' = ''x''" "prefixOf ''y:b'' = ''y''"
  by (simp_all add: prefixOf_def colon_def)

lemma chain_ranked:
  "rankMatches (replicate 128 0) chainIndex (optionsWith None None)
   = [\<lparr>name = ''x:c'', similarity = 511 / 512\<rparr>,
      \<lparr>name = ''x:b'', similarity = 1023 / 1024\<rparr>,
      \<lparr>name = ''x:a'', similarity = 1\<rparr>]"
  unfolding rankMatches_def chain_candidates option_defaults
  by (simp add: sortBy_def compareMatches_def optionSet_def slice0_def)

lemma chain_ranked_negative_limit:
  "rankMatches (replicate 128 0) chainIndex (optionsWith (Some (- 1)) None)
   = [\<lparr>name = ''x:c'', similarity = 511 / 512\<rparr>,
      \<lparr>name = ''x:b'', similarity = 1023 / 1024\<rparr>]"
  unfolding rankMatches_def chain_candidates option_defaults
  by (simp add: sortBy_def compareMatches_def optionSet_def slice0_def)

lemma tie_ranked:
  "rankMatches (replicate 128 0) tieIndex (optionsWith None (Some [''y'']))
   = [\<lparr>name = ''y:b'', similarity = 1\<rparr>,
      \<lparr>name = ''x:a'', similarity = 1\<rparr>,
      \<lparr>name = ''x:far'', similarity = 1019 / 1024\<rparr>]"
  unfolding rankMatches_def tie_candidates option_defaults
  by (simp add: sortBy_def compareMatches_def optionSet_def slice0_def prefix_values)

lemma tie_transitive:
  "tiesTransitive (candidates (replicate 128 0) tieIndex (optionsWith l p))"
  unfolding tie_candidates tiesTransitive_def
  by (simp add: tied_def)

lemma far_distances:
  "hammingDistanceAtOffset (replicate 128 0) (IconIndex.hashes farIndex) (0 * HASH_BYTES) = 1024"
  "hammingDistanceAtOffset (replicate 128 0) (IconIndex.hashes farIndex) (1 * HASH_BYTES) = 1024"
  "hammingDistanceAtOffset (replicate 128 0) (IconIndex.hashes farIndex) (2 * HASH_BYTES) = 1024"
  using record_distance [of "replicate 128 255" "replicate 128 255" "replicate 128 255"]
  by (simp_all add: farIndex_def byteDiff_00_ff sum_list_replicate)

lemma far_below_threshold:
  "\<forall>i<length (IconIndex.names farIndex).
     1 - of_int (hammingDistanceAtOffset (replicate 128 0) (IconIndex.hashes farIndex)
                   (i * HASH_BYTES)) / 1024
     < thresholdOf (optionsWith None None)"
proof (intro allI impI)
  fix i assume "i < length (IconIndex.names farIndex)"
  then have "i < 3" by (simp add: farIndex_def)
  then consider "i = 0" | "i = 1" | "i = 2" by linarith
  then show "1 - of_int (hammingDistanceAtOffset (replicate 128 0) (IconIndex.hashes farIndex)
                           (i * HASH_BYTES)) / 1024
             < thresholdOf (optionsWith None None)"
    using far_distances by cases (simp_all add: option_defaults)
qed

lemma chain_no_arrangement:
  "list_all
     (\<lambda>out. \<not> claimedOrder None
                 [\<lparr>name = ''x:c'', similarity = 511 / 512\<rparr>,
                  \<lparr>name = ''x:b'', similarity = 1023 / 1024\<rparr>,
                  \<lparr>name = ''x:a'', similarity = 1\<rparr>] out)
     [[\<lparr>name = ''x:a'', similarity = 1\<rparr>, \<lparr>name = ''x:b'', similarity = 1023 / 1024\<rparr>,
       \<lparr>name = ''x:c'', similarity = 511 / 512\<rparr>],
      [\<lparr>name = ''x:a'', similarity = 1\<rparr>, \<lparr>name = ''x:c'', similarity = 511 / 512\<rparr>,
       \<lparr>name = ''x:b'', similarity = 1023 / 1024\<rparr>],
      [\<lparr>name = ''x:b'', similarity = 1023 / 1024\<rparr>, \<lparr>name = ''x:a'', similarity = 1\<rparr>,
       \<lparr>name = ''x:c'', similarity = 511 / 512\<rparr>],
      [\<lparr>name = ''x:b'', similarity = 1023 / 1024\<rparr>, \<lparr>name = ''x:c'', similarity = 511 / 512\<rparr>,
       \<lparr>name = ''x:a'', similarity = 1\<rparr>],
      [\<lparr>name = ''x:c'', similarity = 511 / 512\<rparr>, \<lparr>name = ''x:a'', similarity = 1\<rparr>,
       \<lparr>name = ''x:b'', similarity = 1023 / 1024\<rparr>],
      [\<lparr>name = ''x:c'', similarity = 511 / 512\<rparr>, \<lparr>name = ''x:b'', similarity = 1023 / 1024\<rparr>,
       \<lparr>name = ''x:a'', similarity = 1\<rparr>]]"
  by (simp add: claimedOrder_def tied_def preferred_def occursBefore_def)

text \<open>
  Claim C5, as amended. When ties are transitive on the candidates that the scan collects
  (no candidate is within 0.001 of two candidates that are further apart than that), the
  sequence returned by \<open>findMatches\<close> is ordered as the claim says: of two entries that are
  not tied the more similar one comes first; of two tied entries a preferred one never comes
  after one that is not preferred; and the entries that are tied with a candidate and
  equally preferred appear in the order in which the scan found them.
\<close>

theorem findMatches_order:
  assumes "computeDHash sharp source (sizeOf options) = Inr h"
    and "tiesTransitive (candidates h index options)"
  shows "\<exists>out. findMatches sharp source index options = Inr out
           \<and> sorted_wrt (\<lambda>a b. if tied a b
                                 then preferred (optionSet (prefer' options)) b
                                      \<longrightarrow> preferred (optionSet (prefer' options)) a
                                 else similarity a > similarity b) out
           \<and> (\<forall>a\<in>set (candidates h index options).
                 prefix (filter (sameRank (optionSet (prefer' options)) a) out)
                        (filter (sameRank (optionSet (prefer' options)) a)
                           (candidates h index options)))"
  using assms(1) rankMatches_order [OF assms(2)] by (simp add: findMatches_def)


theorem findMatches_order_witness:
  "computeDHash flatRaster ''<svg/>'' (sizeOf (optionsWith None (Some [''y''])))
   = Inr (replicate 128 0)
   \<and> tiesTransitive (candidates (replicate 128 0) tieIndex (optionsWith None (Some [''y''])))
   \<and> findMatches flatRaster ''<svg/>'' tieIndex (optionsWith None (Some [''y'']))
       = Inr [\<lparr>name = ''y:b'', similarity = 1\<rparr>,
              \<lparr>name = ''x:a'', similarity = 1\<rparr>,
              \<lparr>name = ''x:far'', similarity = 1019 / 1024\<rparr>]
   \<and> (\<exists>out. findMatches flatRaster ''<svg/>'' tieIndex (optionsWith None (Some [''y''])) = Inr out
          \<and> sorted_wrt (\<lambda>a b. if tied a b
                                then preferred (Some {''y''}) b \<longrightarrow> preferred (Some {''y''}) a
                                else similarity a > similarity b) out)"
proof -
  have a: "computeDHash flatRaster ''<svg/>'' (sizeOf (optionsWith None (Some [''y''])))
           = Inr (replicate 128 0)"
    by (rule flatRaster_hash)
  have b: "tiesTransitive (candidates (replicate 128 0) tieIndex (optionsWith None (Some [''y''])))"
    by (rule tie_transitive)
  have c: "findMatches flatRaster ''<svg/>'' tieIndex (optionsWith None (Some [''y'']))
           = Inr [\<lparr>name = ''y:b'', similarity = 1\<rparr>,
                  \<lparr>name = ''x:a'', similarity = 1\<rparr>,
                  \<lparr>name = ''x:far'', similarity = 1019 / 1024\<rparr>]"
    by (simp add: findMatches_def flatRaster_hash tie_ranked)
  have d: "optionSet (prefer' (optionsWith None (Some [''y'']))) = Some {''y''}"
    by (simp add: option_defaults optionSet_def)
  show ?thesis
    using a b c findMatches_order [OF a b] unfolding d by blast
qed

text \<open>
  The claim as stated, for every index, fails on three records at distances 2, 1 and 0 from
  the query, found in this order. Each is tied with the next, so the comparison function
  returns 0 for them and the stable sort leaves them where they are; the first and the last
  are not tied, and the result is not ordered by similarity. No other arrangement would
  satisfy the claim either (lemma \<open>chain_no_arrangement\<close>): descending order of the untied
  pair and scan order of the two tied pairs contradict each other.
\<close>

theorem findMatches_order_counterexample:
  "findMatches flatRaster ''<svg/>'' chainIndex (optionsWith None None)
   = Inr [\<lparr>name = ''x:c'', similarity = 511 / 512\<rparr>,
          \<lparr>name = ''x:b'', similarity = 1023 / 1024\<rparr>,
          \<lparr>name = ''x:a'', similarity = 1\<rparr>]
   \<and> \<not> tied \<lparr>name = ''x:c'', similarity = 511 / 512\<rparr> \<lparr>name = ''x:a'', similarity = 1\<rparr>
   \<and> similarity \<lparr>name = ''x:c'', similarity = 511 / 512\<rparr>
       < similarity \<lparr>name = ''x:a'', similarity = 1\<rparr>"
  by (simp add: findMatches_def flatRaster_hash chain_ranked option_defaults tied_def)

text \<open>
  Claim C2, as amended. Whenever the query hash can be computed, \<open>findMatches\<close> returns a
  sequence and not an error; every entry has a similarity of at least the threshold
  (default 0.8); when the limit (default 10) is not negative, the sequence has at most that
  many entries; and when no record reaches the threshold, the sequence is empty.
\<close>

theorem findMatches_threshold_and_limit:
  assumes "computeDHash sharp source (sizeOf options) = Inr h"
  shows "\<exists>out. findMatches sharp source index options = Inr out
           \<and> (\<forall>m\<in>set out. similarity m \<ge> thresholdOf options)
           \<and> (0 \<le> limitOf options \<longrightarrow> int (length out) \<le> limitOf options)
           \<and> ((\<forall>i<length (IconIndex.names index).
                  1 - of_int (hammingDistanceAtOffset h (IconIndex.hashes index) (i * HASH_BYTES))
                      / 1024 < thresholdOf options)
                \<longrightarrow> out = [])"
proof -
  have a: "findMatches sharp source index options = Inr (rankMatches h index options)"
    using assms by (simp add: findMatches_def)
  have b: "\<forall>m\<in>set (rankMatches h index options). similarity m \<ge> thresholdOf options"
    using rankMatches_subset candidates_threshold by blast
  have c: "0 \<le> limitOf options \<longrightarrow> int (length (rankMatches h index options)) \<le> limitOf options"
    by (simp add: rankMatches_def length_slice0)
  have d: "rankMatches h index options = []"
    if "\<forall>i<length (IconIndex.names index).
          1 - of_int (hammingDistanceAtOffset h (IconIndex.hashes index) (i * HASH_BYTES)) / 1024
          < thresholdOf options"
    using candidates_empty [OF that] by (simp add: rankMatches_def sortBy_Nil slice0_Nil)
  show ?thesis using a b c d by blast
qed


theorem findMatches_threshold_and_limit_witness:
  "computeDHash flatRaster ''<svg/>'' (sizeOf (optionsWith None None)) = Inr (replicate 128 0)
   \<and> (\<exists>out. findMatches flatRaster ''<svg/>'' chainIndex (optionsWith None None) = Inr out
          \<and> (\<forall>m\<in>set out. similarity m \<ge> 8 / 10) \<and> int (length out) \<le> 10)
   \<and> length (IconIndex.names farIndex) = 3
   \<and> 1 - of_int (hammingDistanceAtOffset (replicate 128 0) (IconIndex.hashes farIndex)
                    (0 * HASH_BYTES)) / 1024 < thresholdOf (optionsWith None None)
   \<and> 1 - of_int (hammingDistanceAtOffset (replicate 128 0) (IconIndex.hashes farIndex)
                    (1 * HASH_BYTES)) / 1024 < thresholdOf (optionsWith None None)
   \<and> 1 - of_int (hammingDistanceAtOffset (replicate 128 0) (IconIndex.hashes farIndex)
                    (2 * HASH_BYTES)) / 1024 < thresholdOf (optionsWith None None)
   \<and> findMatches flatRaster ''<svg/>'' farIndex (optionsWith None None) = Inr []"
proof -
  have a: "computeDHash flatRaster ''<svg/>'' (sizeOf (optionsWith None None))
           = Inr (replicate 128 0)"
    by (rule flatRaster_hash)
  have b: "length (IconIndex.names farIndex) = 3"
    by (simp add: farIndex_def)
  have c: "1 - of_int (hammingDistanceAtOffset (replicate 128 0) (IconIndex.hashes farIndex)
                         (0 * HASH_BYTES)) / 1024 < thresholdOf (optionsWith None None)"
    "1 - of_int (hammingDistanceAtOffset (replicate 128 0) (IconIndex.hashes farIndex)
                   (1 * HASH_BYTES)) / 1024 < thresholdOf (optionsWith None None)"
    "1 - of_int (hammingDistanceAtOffset (replicate 128 0) (IconIndex.hashes farIndex)
                   (2 * HASH_BYTES)) / 1024 < thresholdOf (optionsWith None None)"
    using far_distances by (simp_all add: option_defaults)
  have d: "\<exists>out. findMatches flatRaster ''<svg/>'' chainIndex (optionsWith None None) = Inr out
             \<and> (\<forall>m\<in>set out. similarity m \<ge> 8 / 10) \<and> int (length out) \<le> 10"
    using findMatches_threshold_and_limit [OF a, of chainIndex]
    by (auto simp add: option_defaults)
  have e: "findMatches flatRaster ''<svg/>'' farIndex (optionsWith None None) = Inr []"
    using findMatches_threshold_and_limit [OF a, of farIndex] far_below_threshold
    by auto
  show ?thesis
    using a b c d e by blast
qed

text \<open>
  The claim as stated, for every limit, fails for a negative limit: \<open>slice(0, -1)\<close> drops
  the last entry and keeps the others, here two entries for the limit \<open>-1\<close>.
\<close>

theorem findMatches_limit_counterexample:
  "findMatches flatRaster ''<svg/>'' chainIndex (optionsWith (Some (- 1)) None)
   = Inr [\<lparr>name = ''x:c'', similarity = 511 / 512\<rparr>,
          \<lparr>name = ''x:b'', similarity = 1023 / 1024\<rparr>]
   \<and> \<not> int (length [\<lparr>name = ''x:c'', similarity = 511 / 512\<rparr>,
                      \<lparr>name = ''x:b'', similarity = 1023 / 1024\<rparr>])
         \<le> limitOf (optionsWith (Some (- 1)) None)"
  by (simp add: findMatches_def flatRaster_hash chain_ranked_negative_limit option_defaults)

section \<open>Loading an index\<close>

lemma split_on_nonempty: "split_on sep s \<noteq> []"
  by (induction s) (auto split: list.splits)

lemma join_split: "join_with sep (split_on sep s) = s"
proof (induction s)
  case Nil
  then show ?case by simp
next
  case (Cons c cs)
  obtain w ws where w: "split_on sep cs = w # ws"
    using split_on_nonempty [of sep cs] by (cases "split_on sep cs") auto
  show ?case
  proof (cases "c = sep")
    case True
    then show ?thesis using Cons w by simp
  next
    case False
    then show ?thesis using Cons w by (cases ws) simp_all
  qed
qed

lemma split_on_free: "\<forall>l\<in>set (split_on sep s). sep \<notin> set l"
proof (induction s)
  case Nil
  then show ?case by simp
next
  case (Cons c cs)
  obtain w ws where w: "split_on sep cs = w # ws"
    using split_on_nonempty [of sep cs] by (cases "split_on sep cs") auto
  then show ?case using Cons by auto
qed

lemma split_on_no_sep: "sep \<notin> set x \<Longrightarrow> split_on sep x = [x]"
  by (induction x) auto

lemma split_on_append:
  "sep \<notin> set x \<Longrightarrow> split_on sep (x @ sep # s) = x # split_on sep s"
  by (induction x) auto

lemma split_join:
  "xs \<noteq> [] \<Longrightarrow> \<forall>x\<in>set xs. sep \<notin> set x \<Longrightarrow> split_on sep (join_with sep xs) = xs"
proof (induction xs rule: join_with.induct)
  case (1 sep)
  then show ?case by simp
next
  case (2 sep x)
  then show ?case by (simp add: split_on_no_sep)
next
  case (3 sep x y ys)
  then show ?case by (simp add: split_on_append)
qed

lemma parse_join:
  assumes "\<forall>x\<in>set xs. x \<noteq> [] \<and> sep \<notin> set x"
  shows "filter (\<lambda>s. s \<noteq> []) (split_on sep (join_with sep xs)) = xs"
proof (cases "xs = []")
  case True
  then show ?thesis by simp
next
  case False
  then have "split_on sep (join_with sep xs) = xs"
    using assms by (intro split_join) auto
  then show ?thesis using assms by (simp add: filter_id_conv)
qed

lemma utf8_round_trip: "toString_utf8 (fromString_utf8 s) = s"
  by (induction s) (simp_all add: toString_utf8_def fromString_utf8_def unat_of_nat)


lemma mismatched_index_search:
  "findMatches flatRaster ''<svg/>'' \<lparr>names = [''a:b''], hashes = []\<rparr> (optionsWith None None)
   = Inr [\<lparr>name = ''a:b'', similarity = 1\<rparr>]"
proof -
  have d: "hammingDistanceAtOffset (replicate 128 0) [] 0 = 0"
    by code_simp
  have "candidates (replicate 128 0) \<lparr>names = [''a:b''], hashes = []\<rparr> (optionsWith None None)
        = [\<lparr>name = ''a:b'', similarity = 1\<rparr>]"
    unfolding candidates_def scanMatches_def option_defaults
    using d by (simp add: scanStep_def HASH_BYTES_def)
  then show ?thesis
    unfolding findMatches_def flatRaster_hash rankMatches_def option_defaults
    by (simp add: sortBy_def slice0_def)
qed

text \<open>
  Claim C1, as amended. \<open>loadIndex\<close> makes no length check. Whenever both payloads
  decompress, it returns an index: its hash buffer is the decompressed fingerprint payload
  as it is, of whatever length, and its names are the non-empty lines of the decompressed
  names payload in their order. It fails only when decompression fails.
\<close>

theorem loadIndex_never_checks_length:
  assumes "gunzipSync namesGz = Inr nb" and "gunzipSync hashesGz = Inr hb"
  shows "\<exists>idx ls. loadIndex gunzipSync namesGz hashesGz = Inr idx
           \<and> IconIndex.hashes idx = hb
           \<and> join_with newline ls = toString_utf8 nb
           \<and> (\<forall>l\<in>set ls. newline \<notin> set l)
           \<and> IconIndex.names idx = filter (\<lambda>l. l \<noteq> []) ls"
proof -
  let ?ls = "split_on newline (toString_utf8 nb)"
  have "loadIndex gunzipSync namesGz hashesGz
        = Inr \<lparr>names = filter (\<lambda>l. l \<noteq> []) ?ls, hashes = hb\<rparr>"
    using assms by (simp add: loadIndex_def)
  then show ?thesis
    using join_split [of newline "toString_utf8 nb"] split_on_free [of newline "toString_utf8 nb"]
    by (intro exI [of _ "\<lparr>names = filter (\<lambda>l. l \<noteq> []) ?ls, hashes = hb\<rparr>"] exI [of _ ?ls]) simp
qed

theorem loadIndex_never_checks_length_witness:
  "storedGunzip [0, 0x61, 0x3A, 0x62, 0x0A, 0x0A, 0x63, 0x3A, 0x64]
   = Inr [0x61, 0x3A, 0x62, 0x0A, 0x0A, 0x63, 0x3A, 0x64]
   \<and> storedGunzip [0, 1, 2, 3] = Inr [1, 2, 3]
   \<and> loadIndex storedGunzip [0, 0x61, 0x3A, 0x62, 0x0A, 0x0A, 0x63, 0x3A, 0x64] [0, 1, 2, 3]
       = Inr \<lparr>names = [''a:b'', ''c:d''], hashes = [1, 2, 3]\<rparr>
   \<and> (\<exists>idx ls. loadIndex storedGunzip [0, 0x61, 0x3A, 0x62, 0x0A, 0x0A, 0x63, 0x3A, 0x64]
                    [0, 1, 2, 3] = Inr idx
          \<and> IconIndex.hashes idx = [1, 2, 3]
          \<and> join_with newline ls = toString_utf8 [0x61, 0x3A, 0x62, 0x0A, 0x0A, 0x63, 0x3A, 0x64]
          \<and> IconIndex.names idx = filter (\<lambda>l. l \<noteq> []) ls)"
proof -
  have a: "storedGunzip [0, 0x61, 0x3A, 0x62, 0x0A, 0x0A, 0x63, 0x3A, 0x64]
           = Inr [0x61, 0x3A, 0x62, 0x0A, 0x0A, 0x63, 0x3A, 0x64]"
    by (simp add: storedGunzip_def)
  have b: "storedGunzip [0, 1, 2, 3] = Inr [1, 2, 3]"
    by (simp add: storedGunzip_def)
  have c: "loadIndex storedGunzip [0, 0x61, 0x3A, 0x62, 0x0A, 0x0A, 0x63, 0x3A, 0x64] [0, 1, 2, 3]
           = Inr \<lparr>names = [''a:b'', ''c:d''], hashes = [1, 2, 3]\<rparr>"
    by code_simp
  show ?thesis
    using a b c loadIndex_never_checks_length [where gunzipSync = storedGunzip, OF a b]
    by blast
qed

text \<open>
  The claim as stated fails on one name and an empty fingerprint payload: \<open>loadIndex\<close>
  returns the index. A search on that index does not fail either; the missing bytes read
  as 0 (lemma \<open>mismatched_index_search\<close>).
\<close>

theorem loadIndex_mismatch_counterexample:
  "loadIndex storedGunzip [0, 0x61, 0x3A, 0x62] [0] = Inr \<lparr>names = [''a:b''], hashes = []\<rparr>
   \<and> length ([] :: buffer) \<noteq> length [''a:b''] * 128"
proof -
  have "loadIndex storedGunzip [0, 0x61, 0x3A, 0x62] [0]
        = Inr \<lparr>names = [''a:b''], hashes = []\<rparr>"
    by code_simp
  then show ?thesis by simp
qed

section \<open>The builder keeps names and fingerprints in step\<close>

lemma scan_length:
  "length (hash (fold (\<lambda>y. fold (compareStep data (ro y)) xs) ys initialState)) = 128"
proof -
  have "fold (\<lambda>y. fold (compareStep data (ro y)) xs) ys initialState
        = fold pushBit (map (\<lambda>p. darker data (ro (fst p) + snd p)) (List.product ys xs)) initialState"
    unfolding fold_fold_product fold_map
    by (simp add: compareStep_pushBit comp_def case_prod_unfold)
  then show ?thesis
    using packInv_fold [of "map (\<lambda>p. darker data (ro (fst p) + snd p)) (List.product ys xs)"]
    by (simp add: packInv_def HASH_BYTES_def)
qed

lemma extractHash_length: "length (extractHash data sw cols iw ih i) = 128"
  unfolding extractHash_def Let_def by (rule scan_length)

lemma paired_pushIcon: "paired st \<Longrightarrow> length h = 128 \<Longrightarrow> paired (pushIcon nm h st)"
  by (simp add: paired_def pushIcon_def HASH_BYTES_def)

lemma paired_fallback: "paired st \<Longrightarrow> paired (fallbackBatch sharp sz batch st)"
  unfolding fallbackBatch_def
proof (induction batch arbitrary: st)
  case Nil
  then show ?case by simp
next
  case (Cons icon batch)
  have "paired (case computeDHash sharp (IconInput.svg icon) sz of
                  Inl e \<Rightarrow> st | Inr h \<Rightarrow> pushIcon (IconInput.name icon) h st)"
    using Cons.prems
    by (auto split: sum.splits intro: paired_pushIcon dest: computeDHash_length)
  then show ?case using Cons.IH by simp
qed

lemma paired_pushes:
  "paired st \<Longrightarrow> \<forall>j\<in>set js. length (hs j) = 128
   \<Longrightarrow> paired (fold (\<lambda>j. pushIcon (nm j) (hs j)) js st)"
  by (induction js arbitrary: st) (simp_all add: paired_pushIcon)

lemma paired_process: "paired st \<Longrightarrow> paired (processBatch css sharp sz batch st)"
  unfolding processBatch_def Let_def
  by (auto split: sum.splits intro!: paired_fallback paired_pushes
      simp add: extractHashesFromSprite_def extractHash_length)

lemma paired_progress: "paired (st\<lparr>progress := p\<rparr>) = paired st"
  by (simp add: paired_def)

lemma paired_buildLoop: "paired st \<Longrightarrow> paired (buildLoop css sharp sz icons i st)"
proof (induction css sharp sz icons i st rule: buildLoop.induct)
  case (1 css sharp sz icons i st)
  show ?case
  proof (cases "i < length icons")
    case True
    then show ?thesis
      using "1.IH" [OF True refl refl refl] "1.prems"
      by (subst buildLoop.simps) (simp add: Let_def paired_progress paired_process)
  next
    case False
    then show ?thesis using "1.prems" by (subst buildLoop.simps) simp
  qed
qed

lemma paired_buildState: "paired (buildState css sharp icons sz)"
  unfolding buildState_def by (rule paired_buildLoop) (simp add: paired_def initialBuild_def)

lemma names_pushes:
  "namesAcc (fold (\<lambda>j. pushIcon (nm j) (hs j)) js st) = namesAcc st @ map nm js"
  by (induction js arbitrary: st) (simp_all add: pushIcon_def)

lemma buffers_pushes:
  "hashBuffers (fold (\<lambda>j. pushIcon (nm j) (hs j)) js st) = hashBuffers st @ map hs js"
  by (induction js arbitrary: st) (simp_all add: pushIcon_def)

lemma names_fallback:
  "set (namesAcc (fallbackBatch sharp sz batch st))
   \<subseteq> set (namesAcc st) \<union> IconInput.name ` set batch"
  unfolding fallbackBatch_def
proof (induction batch arbitrary: st)
  case Nil
  then show ?case by simp
next
  case (Cons icon batch)
  let ?st = "case computeDHash sharp (IconInput.svg icon) sz of
               Inl e \<Rightarrow> st | Inr h \<Rightarrow> pushIcon (IconInput.name icon) h st"
  have "set (namesAcc ?st) \<subseteq> set (namesAcc st) \<union> {IconInput.name icon}"
    by (auto simp add: pushIcon_def split: sum.splits)
  then show ?case using Cons.IH [of ?st] by auto
qed

lemma map_nth_name: "map (\<lambda>j. f (xs ! j)) [0..<length xs] = map f xs"
  by (intro nth_equalityI) simp_all

lemma names_process:
  "set (namesAcc (processBatch css sharp sz batch st))
   \<subseteq> set (namesAcc st) \<union> IconInput.name ` set batch"
proof (cases "sharp Fill (css batch SPRITE_COLS (sz + 1)) (SPRITE_COLS * (sz + 1))
                ((length batch + SPRITE_COLS - 1) div SPRITE_COLS * sz)")
  case (Inl e)
  then show ?thesis
    using names_fallback [of sharp sz batch st] by (simp add: processBatch_def Let_def)
next
  case (Inr data)
  then show ?thesis
    by (simp add: processBatch_def Let_def names_pushes map_nth_name)
qed

lemma names_buildLoop:
  "set (namesAcc (buildLoop css sharp sz icons i st))
   \<subseteq> set (namesAcc st) \<union> IconInput.name ` set icons"
proof (induction css sharp sz icons i st rule: buildLoop.induct)
  case (1 css sharp sz icons i st)
  show ?case
  proof (cases "i < length icons")
    case True
    let ?batch = "take batchSize (drop i icons)"
    let ?st1 = "processBatch css sharp sz ?batch st"
    let ?st2 = "?st1\<lparr>progress := progress ?st1 @ [(min (i + batchSize) (length icons), length icons)]\<rparr>"
    have "set ?batch \<subseteq> set icons"
      using set_take_subset [of batchSize "drop i icons"] set_drop_subset [of i icons] by blast
    then have a: "set (namesAcc ?st2) \<subseteq> set (namesAcc st) \<union> IconInput.name ` set icons"
      using names_process [of css sharp sz ?batch st] by auto
    have "set (namesAcc (buildLoop css sharp sz icons (i + batchSize) ?st2))
          \<subseteq> set (namesAcc ?st2) \<union> IconInput.name ` set icons"
      by (rule "1.IH" [OF True refl refl refl])
    moreover have "buildLoop css sharp sz icons i st
                   = buildLoop css sharp sz icons (i + batchSize) ?st2"
      using True by (subst buildLoop.simps) (simp add: Let_def)
    ultimately show ?thesis using a by auto
  next
    case False
    then show ?thesis by (subst buildLoop.simps) simp
  qed
qed

lemma names_buildState:
  "set (namesAcc (buildState css sharp icons sz)) \<subseteq> IconInput.name ` set icons"
  using names_buildLoop [of css sharp sz icons 0 initialBuild]
  by (simp add: buildState_def initialBuild_def)

lemma length_concat_blocks:
  "\<forall>h\<in>set hs. length h = n \<Longrightarrow> length (concat hs) = length hs * n"
  by (induction hs) simp_all


text \<open>When every sprite sheet renders, all icons survive, in their order.\<close>

lemma names_process_rendered:
  assumes "\<forall>s w h. \<exists>d. sharp Fill s w h = Inr d"
  shows "namesAcc (processBatch css sharp sz batch st) = namesAcc st @ map IconInput.name batch"
proof -
  obtain d where "sharp Fill (css batch SPRITE_COLS (sz + 1)) (SPRITE_COLS * (sz + 1))
                    ((length batch + SPRITE_COLS - 1) div SPRITE_COLS * sz) = Inr d"
    using assms by blast
  then show ?thesis
    by (simp add: processBatch_def Let_def names_pushes map_nth_name)
qed

lemma names_buildLoop_rendered:
  assumes "\<forall>s w h. \<exists>d. sharp Fill s w h = Inr d"
  shows "namesAcc (buildLoop css sharp sz icons i st)
         = namesAcc st @ map IconInput.name (drop i icons)"
  using assms
proof (induction css sharp sz icons i st rule: buildLoop.induct)
  case (1 css sharp sz icons i st)
  show ?case
  proof (cases "i < length icons")
    case True
    let ?batch = "take batchSize (drop i icons)"
    let ?st1 = "processBatch css sharp sz ?batch st"
    let ?st2 = "?st1\<lparr>progress := progress ?st1 @ [(min (i + batchSize) (length icons), length icons)]\<rparr>"
    have a: "namesAcc ?st2 = namesAcc st @ map IconInput.name ?batch"
      using names_process_rendered [where sharp = sharp, OF "1.prems", of css sz ?batch st] by simp
    have "namesAcc (buildLoop css sharp sz icons (i + batchSize) ?st2)
          = namesAcc ?st2 @ map IconInput.name (drop (i + batchSize) icons)"
      by (rule "1.IH" [OF True refl refl refl "1.prems"])
    moreover have "buildLoop css sharp sz icons i st
                   = buildLoop css sharp sz icons (i + batchSize) ?st2"
      using True by (subst buildLoop.simps) (simp add: Let_def)
    moreover have "?batch @ drop (i + batchSize) icons = drop i icons"
      using append_take_drop_id [of batchSize "drop i icons"] by (simp add: add.commute)
    ultimately show ?thesis
      using a by (metis append.assoc map_append)
  next
    case False
    then show ?thesis by (subst buildLoop.simps) simp
  qed
qed

lemma names_buildState_rendered:
  assumes "\<forall>s w h. \<exists>d. sharp Fill s w h = Inr d"
  shows "namesAcc (buildState css sharp icons sz) = map IconInput.name icons"
  using names_buildLoop_rendered [where sharp = sharp, OF assms, of css sz icons 0 initialBuild]
  by (simp add: buildState_def initialBuild_def)

lemma flatRaster_renders: "\<forall>s w h. \<exists>d. flatRaster Fill s w h = Inr d"
  by (simp add: flatRaster_def)

lemma buildIndex_lengths:
  "length (BuiltIndex.hashes (buildIndex css sharp icons sz))
   = length (namesAcc (buildState css sharp icons sz)) * 128"
  using paired_buildState [of css sharp icons sz]
  by (simp add: buildIndex_def Let_def paired_def HASH_BYTES_def length_concat_blocks)

lemma namesIn_join:
  assumes "\<forall>n\<in>set ns. n \<noteq> [] \<and> newline \<notin> set n"
  shows "namesIn (join_with newline ns) = length ns"
  using parse_join [OF assms] by (simp add: namesIn_def)

text \<open>
  Claim C10, as amended. For every icon list in which no name is empty or contains a
  newline, and for every pattern of rendering failures, \<open>buildIndex\<close> adds a name and its
  128-byte fingerprint only as a pair, and the fingerprint buffer it returns has 128 bytes
  for each name that the loader finds in the names text.
\<close>

theorem buildIndex_blobs_in_step:
  assumes "\<forall>icon\<in>set icons. IconInput.name icon \<noteq> [] \<and> newline \<notin> set (IconInput.name icon)"
  shows "length (namesAcc (buildState css sharp icons sz))
         = length (hashBuffers (buildState css sharp icons sz))
       \<and> length (BuiltIndex.hashes (buildIndex css sharp icons sz))
         = namesIn (BuiltIndex.names (buildIndex css sharp icons sz)) * 128"
proof -
  have "\<forall>n\<in>set (namesAcc (buildState css sharp icons sz)). n \<noteq> [] \<and> newline \<notin> set n"
  proof
    fix n assume "n \<in> set (namesAcc (buildState css sharp icons sz))"
    then obtain icon where "icon \<in> set icons" "n = IconInput.name icon"
      using names_buildState [of css sharp icons sz] by blast
    then show "n \<noteq> [] \<and> newline \<notin> set n" using assms by simp
  qed
  then have "namesIn (BuiltIndex.names (buildIndex css sharp icons sz))
             = length (namesAcc (buildState css sharp icons sz))"
    using namesIn_join by (simp add: buildIndex_def Let_def)
  then show ?thesis
    using buildIndex_lengths [of css sharp icons sz] paired_buildState [of css sharp icons sz]
    by (simp add: paired_def)
qed

theorem buildIndex_blobs_in_step_witness:
  "(IconInput.name (twoIcons ! 0) \<noteq> [] \<and> newline \<notin> set (IconInput.name (twoIcons ! 0)))
   \<and> (IconInput.name (twoIcons ! 1) \<noteq> [] \<and> newline \<notin> set (IconInput.name (twoIcons ! 1)))
   \<and> length twoIcons = 2
   \<and> BuiltIndex.names (buildIndex plainSheet flatRaster twoIcons 32)
       = [CHR ''a'', CHR '':'', CHR ''b'', CHR 0x0A, CHR ''c'', CHR '':'', CHR ''d'']
   \<and> namesIn (BuiltIndex.names (buildIndex plainSheet flatRaster twoIcons 32)) = 2
   \<and> length (BuiltIndex.hashes (buildIndex plainSheet flatRaster twoIcons 32)) = 2 * 128"
proof -
  have a: "\<forall>icon\<in>set twoIcons. IconInput.name icon \<noteq> [] \<and> newline \<notin> set (IconInput.name icon)"
    by (simp add: twoIcons_def newline_def)
  have b: "namesAcc (buildState plainSheet flatRaster twoIcons 32) = [''a:b'', ''c:d'']"
    using names_buildState_rendered [where sharp = flatRaster, OF flatRaster_renders]
    by (simp add: twoIcons_def)
  have c: "BuiltIndex.names (buildIndex plainSheet flatRaster twoIcons 32)
           = [CHR ''a'', CHR '':'', CHR ''b'', CHR 0x0A, CHR ''c'', CHR '':'', CHR ''d'']"
    by (simp add: buildIndex_def Let_def b newline_def)
  have d: "namesIn [CHR ''a'', CHR '':'', CHR ''b'', CHR 0x0A, CHR ''c'', CHR '':'', CHR ''d''] = 2"
    by (simp add: namesIn_def newline_def)
  show ?thesis
    using a c d buildIndex_blobs_in_step [OF a, of plainSheet flatRaster 32]
    by (simp add: twoIcons_def newline_def)
qed

text \<open>
  The claim as stated excludes only names with a newline. It fails for an icon with the
  empty name: the name is joined into an empty text, in which the loader finds no name,
  while the buffer holds one fingerprint.
\<close>

theorem buildIndex_empty_name_counterexample:
  "newline \<notin> set (IconInput.name emptyIcon)
   \<and> namesIn (BuiltIndex.names (buildIndex plainSheet flatRaster [emptyIcon] 32)) = 0
   \<and> length (BuiltIndex.hashes (buildIndex plainSheet flatRaster [emptyIcon] 32)) = 128"
proof -
  have b: "namesAcc (buildState plainSheet flatRaster [emptyIcon] 32) = [[]]"
    using names_buildState_rendered [where sharp = flatRaster, OF flatRaster_renders]
    by (simp add: emptyIcon_def)
  have c: "BuiltIndex.names (buildIndex plainSheet flatRaster [emptyIcon] 32) = []"
    by (simp add: buildIndex_def Let_def b)
  have d: "newline \<notin> set (IconInput.name emptyIcon)"
    by (simp add: emptyIcon_def)
  show ?thesis
    using buildIndex_lengths [of plainSheet flatRaster "[emptyIcon]" 32] d
    by (simp add: b c namesIn_def)
qed

lemma load_built:
  assumes "\<forall>x. gunzipSync (gzipSync x) = Inr x"
  shows "loadIndex gunzipSync
           (gzipSync (fromString_utf8 (BuiltIndex.names (buildIndex css sharp icons sz))))
           (gzipSync (BuiltIndex.hashes (buildIndex css sharp icons sz)))
         = Inr \<lparr>names = filter (\<lambda>s. s \<noteq> [])
                           (split_on newline
                              (join_with newline (namesAcc (buildState css sharp icons sz)))),
                hashes = concat (hashBuffers (buildState css sharp icons sz))\<rparr>"
  using assms by (simp add: loadIndex_def buildIndex_def Let_def utf8_round_trip)

lemma loaded_names_clean:
  "\<forall>n\<in>set (filter (\<lambda>s. s \<noteq> []) (split_on newline t)). n \<noteq> [] \<and> newline \<notin> set n"
  using split_on_free [of newline t] by simp

text \<open>
  The condition on the names is necessary: whenever the loaded names are the names that
  were written, none of them is empty and none contains a newline.
\<close>

lemma round_trip_needs_clean_names:
  assumes "\<forall>x. gunzipSync (gzipSync x) = Inr x"
    and "loadIndex gunzipSync
           (gzipSync (fromString_utf8 (BuiltIndex.names (buildIndex css sharp icons sz))))
           (gzipSync (BuiltIndex.hashes (buildIndex css sharp icons sz))) = Inr idx"
    and "IconIndex.names idx = namesAcc (buildState css sharp icons sz)"
  shows "\<forall>n\<in>set (namesAcc (buildState css sharp icons sz)). n \<noteq> [] \<and> newline \<notin> set n"
proof -
  have "IconIndex.names idx
        = filter (\<lambda>s. s \<noteq> [])
            (split_on newline (join_with newline (namesAcc (buildState css sharp icons sz))))"
    using assms(2) unfolding load_built [where gunzipSync = gunzipSync, OF assms(1)] by auto
  then have "namesAcc (buildState css sharp icons sz)
             = filter (\<lambda>s. s \<noteq> [])
                 (split_on newline (join_with newline (namesAcc (buildState css sharp icons sz))))"
    unfolding assms(3) .
  then show ?thesis
    by (rule ssubst) (rule loaded_names_clean)
qed




end
